theory Spec2Isabelle
  imports Main "HOL-Library.Word" "HOL-Library.List_Lexorder" "HOL-Library.Multiset"
begin

section \<open>Strings\<close>

text \<open>
  A JavaScript string is a sequence of 16-bit UTF-16 code units. Comparison of strings
  (the default comparator of \<^verbatim>\<open>Array.prototype.sort\<close>, \<^verbatim>\<open>===\<close>) works on code units, so the
  order on \<open>jsstring\<close> is the lexicographic order of the unsigned 16-bit values.
  \<open>lit\<close> turns an ASCII literal into such a string.
\<close>

type_synonym code_unit = "16 word"
type_synonym jsstring = "code_unit list"

definition lit :: "string \<Rightarrow> jsstring" where
  "lit s = map (\<lambda>c. of_int (of_char c)) s"

text \<open>White space and line terminators of ECMAScript (used by \<^verbatim>\<open>trim\<close> and \<^verbatim>\<open>parseInt\<close>).\<close>

definition isWhiteSpace :: "code_unit \<Rightarrow> bool" where
  "isWhiteSpace c \<longleftrightarrow>
     c \<in> {0x09, 0x0A, 0x0B, 0x0C, 0x0D, 0x20, 0xA0, 0x1680, 0x2028, 0x2029, 0x202F,
          0x205F, 0x3000, 0xFEFF} \<or> (0x2000 \<le> c \<and> c \<le> 0x200A)"

definition trim :: "jsstring \<Rightarrow> jsstring" where
  "trim s = rev (dropWhile isWhiteSpace (rev (dropWhile isWhiteSpace s)))"

text \<open>
  \<^verbatim>\<open>toLowerCase\<close> and \<^verbatim>\<open>toUpperCase\<close> are modelled on the Latin-1 range (the letters A-Z and the
  accented capitals U+00C0..U+00DE without the multiplication sign, and their lower-case
  partners); code units outside it are left as they are.
\<close>

definition lowerUnit :: "code_unit \<Rightarrow> code_unit" where
  "lowerUnit c =
     (if (0x41 \<le> c \<and> c \<le> 0x5A) \<or> (0xC0 \<le> c \<and> c \<le> 0xDE \<and> c \<noteq> 0xD7) then c + 0x20 else c)"

definition upperUnit :: "code_unit \<Rightarrow> code_unit" where
  "upperUnit c =
     (if (0x61 \<le> c \<and> c \<le> 0x7A) \<or> (0xE0 \<le> c \<and> c \<le> 0xFE \<and> c \<noteq> 0xF7) then c - 0x20 else c)"

definition toLowerCase :: "jsstring \<Rightarrow> jsstring" where
  "toLowerCase s = map lowerUnit s"

definition toUpperCase :: "jsstring \<Rightarrow> jsstring" where
  "toUpperCase s = map upperUnit s"

definition str_includes :: "jsstring \<Rightarrow> code_unit \<Rightarrow> bool" where
  "str_includes s c \<longleftrightarrow> c \<in> set s"

fun join :: "jsstring \<Rightarrow> jsstring list \<Rightarrow> jsstring" where
  "join sep [] = []"
| "join sep [x] = x"
| "join sep (x # y # ys) = x @ sep @ join sep (y # ys)"

section \<open>Numbers\<close>

text \<open>
  A finite number is represented by the decimal that \<^verbatim>\<open>Number::toString\<close> prints for it:
  \<open>Fin m e\<close> stands for \<open>m * 10 ^ e\<close>. Every double has such a shortest decimal, so every
  double is covered; arithmetic on \<open>Fin\<close> is exact decimal arithmetic (the IEEE rounding
  of intermediate results is not part of the model). There is one zero.
\<close>

datatype jsnum = NaN | PosInf | NegInf | Fin int int

definition digitUnit :: "nat \<Rightarrow> code_unit" where
  "digitUnit d = of_nat (48 + d)"

function decDigits :: "nat \<Rightarrow> jsstring" where
  "decDigits n = (if n < 10 then [digitUnit n] else decDigits (n div 10) @ [digitUnit (n mod 10)])"
  by pat_completeness auto
termination
  by (relation "measure id") auto

declare decDigits.simps [simp del]

function strip10 :: "int \<Rightarrow> int \<Rightarrow> int \<times> int" where
  "strip10 m e =
     (if m = 0 then (0, 0) else if m mod 10 = 0 then strip10 (m div 10) (e + 1) else (m, e))"
  by pat_completeness auto
termination
  by (relation "measure (\<lambda>(m, e). nat \<bar>m\<bar>)") auto

declare strip10.simps [simp del]

text \<open>
  \<^verbatim>\<open>Number::toString\<close> of ECMAScript for a positive number with digits \<open>s\<close> (not ending in
  0) and decimal exponent \<open>e\<close>: with \<open>k\<close> digits and \<open>n = e + k\<close>, the number is printed
  as an integer, with a decimal point, with leading zeros, or in exponent notation.
\<close>

definition renderDecimal :: "nat \<Rightarrow> int \<Rightarrow> jsstring" where
  "renderDecimal s e =
     (let ds = decDigits s; k = int (length ds); n = e + k in
      if k \<le> n \<and> n \<le> 21 then ds @ replicate (nat (n - k)) 0x30
      else if 0 < n \<and> n \<le> 21 then take (nat n) ds @ [0x2E] @ drop (nat n) ds
      else if -6 < n \<and> n \<le> 0 then [0x30, 0x2E] @ replicate (nat (- n)) 0x30 @ ds
      else (if k = 1 then ds else [hd ds, 0x2E] @ tl ds)
           @ [0x65, if n - 1 < 0 then 0x2D else 0x2B] @ decDigits (nat \<bar>n - 1\<bar>))"

definition Number_toString :: "jsnum \<Rightarrow> jsstring" where
  "Number_toString x =
     (case x of
        NaN \<Rightarrow> lit ''NaN''
      | PosInf \<Rightarrow> lit ''Infinity''
      | NegInf \<Rightarrow> lit ''-Infinity''
      | Fin m e \<Rightarrow>
          (case strip10 m e of (s, e') \<Rightarrow>
             if s = 0 then lit ''0''
             else (if s < 0 then [0x2D] else []) @ renderDecimal (nat \<bar>s\<bar>) e'))"

definition isFinite :: "jsnum \<Rightarrow> bool" where
  "isFinite x = (case x of Fin m e \<Rightarrow> True | _ \<Rightarrow> False)"

definition isZero :: "jsnum \<Rightarrow> bool" where
  "isZero x = (case x of Fin m e \<Rightarrow> m = 0 | _ \<Rightarrow> False)"

section \<open>Values\<close>

text \<open>
  The values the library receives: \<^verbatim>\<open>undefined\<close>, \<^verbatim>\<open>null\<close>, booleans, numbers, strings,
  \<^verbatim>\<open>Date\<close> objects (the time value in milliseconds, \<open>None\<close> for an invalid date), arrays
  and plain objects. An object is the list of its own enumerable properties in the order
  of \<^verbatim>\<open>Object.keys\<close>. A value of this type is a tree: no object is reachable along two
  paths. Object graphs with sharing are modelled in the section on the heap.
\<close>

datatype jsval =
    JUndefined
  | JNull
  | JBool bool
  | JNum jsnum
  | JStr jsstring
  | JDate "int option"
  | JArr "jsval list"
  | JObj "(jsstring \<times> jsval) list"

definition hasOwnProperty :: "(jsstring \<times> jsval) list \<Rightarrow> jsstring \<Rightarrow> bool" where
  "hasOwnProperty kvs k \<longleftrightarrow> k \<in> set (map fst kvs)"

definition getOwn :: "(jsstring \<times> jsval) list \<Rightarrow> jsstring \<Rightarrow> jsval" where
  "getOwn kvs k = (case map_of kvs k of Some v \<Rightarrow> v | None \<Rightarrow> JUndefined)"

definition truthy :: "jsval \<Rightarrow> bool" where
  "truthy v =
     (case v of
        JUndefined \<Rightarrow> False
      | JNull \<Rightarrow> False
      | JBool b \<Rightarrow> b
      | JNum x \<Rightarrow> x \<noteq> NaN \<and> \<not> isZero x
      | JStr s \<Rightarrow> s \<noteq> []
      | _ \<Rightarrow> True)"

section \<open>Path resolution (nested-fields.ts)\<close>

datatype PathKey = KStr jsstring | KNum "int option"

text \<open>
  \<^verbatim>\<open>parseInt(current, 10)\<close>: leading white space is skipped, then an optional sign, then the
  longest prefix of decimal digits; without a digit the result is \<^verbatim>\<open>NaN\<close> (\<open>None\<close>).
\<close>

definition isDigit :: "code_unit \<Rightarrow> bool" where
  "isDigit c \<longleftrightarrow> 0x30 \<le> c \<and> c \<le> 0x39"

fun digitsValue :: "nat \<Rightarrow> jsstring \<Rightarrow> nat" where
  "digitsValue acc [] = acc"
| "digitsValue acc (c # cs) = digitsValue (10 * acc + (unat c - 48)) cs"

definition parseInt :: "jsstring \<Rightarrow> int option" where
  "parseInt str =
     (let s = dropWhile isWhiteSpace str;
          neg = (s \<noteq> [] \<and> hd s = 0x2D);
          s' = (if s \<noteq> [] \<and> (hd s = 0x2D \<or> hd s = 0x2B) then tl s else s);
          z = takeWhile isDigit s'
      in if z = [] then None
         else Some ((if neg then -1 else 1) * int (digitsValue 0 z)))"

fun parsePath_loop :: "jsstring \<Rightarrow> PathKey list \<Rightarrow> jsstring \<Rightarrow> bool \<Rightarrow> PathKey list" where
  "parsePath_loop [] result current inBrackets =
     (if current \<noteq> [] then result @ [KStr current] else result)"
| "parsePath_loop (c # cs) result current inBrackets =
     (if c = 0x5B then
        parsePath_loop cs (if current \<noteq> [] then result @ [KStr current] else result) [] True
      else if c = 0x5D then
        (if inBrackets then parsePath_loop cs (result @ [KNum (parseInt current)]) [] False
         else parsePath_loop cs result current inBrackets)
      else if c = 0x2E then
        parsePath_loop cs (if current \<noteq> [] then result @ [KStr current] else result) []
          inBrackets
      else parsePath_loop cs result (current @ [c]) inBrackets)"

definition parsePath :: "jsstring \<Rightarrow> PathKey list" where
  "parsePath path = parsePath_loop path [] [] False"

text \<open>
  A path key used on an object is converted to a property name: a string is itself, a
  number is printed by \<^verbatim>\<open>Number::toString\<close>.
\<close>

definition toPropertyKey :: "PathKey \<Rightarrow> jsstring" where
  "toPropertyKey key =
     (case key of
        KStr s \<Rightarrow> s
      | KNum None \<Rightarrow> Number_toString NaN
      | KNum (Some i) \<Rightarrow> Number_toString (Fin i 0))"

text \<open>
  The loop of \<^verbatim>\<open>getNestedValue\<close>. \<open>None\<close> is one of its early \<^verbatim>\<open>return undefined\<close>
  statements (the path does not resolve), \<open>Some v\<close> the value the walk ends on.
\<close>

fun getNestedValue_loop :: "jsval \<Rightarrow> PathKey list \<Rightarrow> jsval option" where
  "getNestedValue_loop current [] = Some current"
| "getNestedValue_loop current (key # keys) =
     (case current of
        JNull \<Rightarrow> None
      | JUndefined \<Rightarrow> None
      | JArr xs \<Rightarrow>
          (case key of
             KNum (Some i) \<Rightarrow>
               if 0 \<le> i \<and> i < int (length xs) then getNestedValue_loop (xs ! nat i) keys
               else None
           | _ \<Rightarrow> None)
      | JObj kvs \<Rightarrow>
          (if hasOwnProperty kvs (toPropertyKey key)
           then getNestedValue_loop (getOwn kvs (toPropertyKey key)) keys
           else None)
      | JDate t \<Rightarrow> None
      | _ \<Rightarrow> None)"

definition getNestedValue :: "jsval \<Rightarrow> jsstring \<Rightarrow> jsval" where
  "getNestedValue obj path =
     (if path = [] \<or> \<not> truthy obj then JUndefined
      else case getNestedValue_loop obj (parsePath path) of
             None \<Rightarrow> JUndefined
           | Some v \<Rightarrow> v)"

text \<open>
  \<^verbatim>\<open>obj[path]\<close> in the fallback of \<^verbatim>\<open>getNestedValueEnhanced\<close>: the key contains a dot, so
  only an own property of a plain object can match it.
\<close>

definition getDirect :: "jsval \<Rightarrow> jsstring \<Rightarrow> jsval" where
  "getDirect obj k = (case obj of JObj kvs \<Rightarrow> getOwn kvs k | _ \<Rightarrow> JUndefined)"

definition getNestedValueEnhanced :: "jsval \<Rightarrow> jsstring \<Rightarrow> jsval" where
  "getNestedValueEnhanced obj path =
     (if path = [] \<or> \<not> truthy obj then JUndefined
      else let nestedResult = getNestedValue obj path in
        if nestedResult \<noteq> JUndefined then nestedResult
        else if str_includes path 0x2E then getDirect obj path
        else JUndefined)"

definition hasNestedValue :: "jsval \<Rightarrow> jsstring \<Rightarrow> bool" where
  "hasNestedValue obj path \<longleftrightarrow> getNestedValue obj path \<noteq> JUndefined"


section \<open>Hashing (hashing.ts)\<close>

text \<open>
  The primitives of \<^verbatim>\<open>node:crypto\<close> are an external collaborator: the digests (as hex
  strings) and the hex string of the random bytes drawn by \<^verbatim>\<open>randomBytes\<close> are taken as
  given.
\<close>

record Crypto =
  sha256 :: "jsstring \<Rightarrow> jsstring"
  sha512 :: "jsstring \<Rightarrow> jsstring"
  hmacSha256 :: "jsstring \<Rightarrow> jsstring \<Rightarrow> jsstring"
  hmacSha512 :: "jsstring \<Rightarrow> jsstring \<Rightarrow> jsstring"
  randomBytesHex :: "nat \<Rightarrow> jsstring"

datatype HashingAlgorithm = Sha256 | Sha512 | HmacSha256 | HmacSha512 | OtherAlgorithm jsstring

text \<open>A field that the caller left out is \<open>None\<close>.\<close>

record HashingConfig =
  algorithm :: "HashingAlgorithm option"
  secretKey :: "jsstring option"
  keyId :: "jsstring option"
  generateKey :: "bool option"

record HashResult =
  hr_hash :: jsstring
  hr_keyId :: jsstring
  hr_algorithm :: jsstring

datatype error = Error jsstring | RangeError jsstring | SyntaxError jsstring

definition generateSecretKey :: "Crypto \<Rightarrow> nat \<Rightarrow> jsstring" where
  "generateSecretKey crypto len = randomBytesHex crypto len"

definition createHashWithConfig :: "Crypto \<Rightarrow> jsstring \<Rightarrow> HashingConfig \<Rightarrow> error + HashResult" where
  "createHashWithConfig crypto data config =
     (let alg = (case algorithm config of None \<Rightarrow> Sha256 | Some a \<Rightarrow> a);
          key0 = (case secretKey config of None \<Rightarrow> [] | Some k \<Rightarrow> k);
          kid = (case keyId config of None \<Rightarrow> lit ''default'' | Some k \<Rightarrow> k);
          gen = (case generateKey config of None \<Rightarrow> False | Some g \<Rightarrow> g);
          key = (if gen \<and> key0 = [] then generateSecretKey crypto 32 else key0)
      in case alg of
           Sha256 \<Rightarrow>
             Inr \<lparr>hr_hash = sha256 crypto data, hr_keyId = kid, hr_algorithm = lit ''sha256''\<rparr>
         | Sha512 \<Rightarrow>
             Inr \<lparr>hr_hash = sha512 crypto data, hr_keyId = kid, hr_algorithm = lit ''sha512''\<rparr>
         | HmacSha256 \<Rightarrow>
             if key = [] then Inl (Error (lit ''Secret key is required for HMAC-SHA256''))
             else Inr \<lparr>hr_hash = hmacSha256 crypto key data, hr_keyId = kid,
                       hr_algorithm = lit ''hmac-sha256''\<rparr>
         | HmacSha512 \<Rightarrow>
             if key = [] then Inl (Error (lit ''Secret key is required for HMAC-SHA512''))
             else Inr \<lparr>hr_hash = hmacSha512 crypto key data, hr_keyId = kid,
                       hr_algorithm = lit ''hmac-sha512''\<rparr>
         | OtherAlgorithm a \<Rightarrow> Inl (Error (lit ''Unsupported hashing algorithm: '' @ a)))"

text \<open>\<^verbatim>\<open>try { body } catch { handler }\<close>: an error of the body is handed to the handler.\<close>

definition try_catch :: "error + 'a \<Rightarrow> (error \<Rightarrow> error + 'a) \<Rightarrow> error + 'a" where
  "try_catch body handler = (case body of Inl e \<Rightarrow> handler e | Inr v \<Rightarrow> Inr v)"

definition validateHash :: "Crypto \<Rightarrow> jsstring \<Rightarrow> jsstring \<Rightarrow> HashingConfig \<Rightarrow> error + bool" where
  "validateHash crypto data expectedHash config =
     try_catch
       (case createHashWithConfig crypto data config of
          Inl e \<Rightarrow> Inl e
        | Inr result \<Rightarrow> Inr (hr_hash result = expectedHash))
       (\<lambda>e. Inr False)"

section \<open>Canonical serialization (jcs.ts)\<close>

text \<open>
  \<^verbatim>\<open>JSON.stringify\<close> of a string (\<^verbatim>\<open>QuoteJSONString\<close>): the short escapes, \<^verbatim>\<open>\\uXXXX\<close> for
  the other control characters and for a surrogate that is not part of a pair, and every
  other code unit as it is.
\<close>

definition isHighSurrogate :: "code_unit \<Rightarrow> bool" where
  "isHighSurrogate c \<longleftrightarrow> 0xD800 \<le> c \<and> c \<le> 0xDBFF"

definition isLowSurrogate :: "code_unit \<Rightarrow> bool" where
  "isLowSurrogate c \<longleftrightarrow> 0xDC00 \<le> c \<and> c \<le> 0xDFFF"

definition hexDigit :: "nat \<Rightarrow> code_unit" where
  "hexDigit d = (if d < 10 then of_nat (48 + d) else of_nat (87 + d))"

definition unicodeEscape :: "code_unit \<Rightarrow> jsstring" where
  "unicodeEscape c =
     [0x5C, 0x75, hexDigit (unat c div 4096), hexDigit (unat c div 256 mod 16),
      hexDigit (unat c div 16 mod 16), hexDigit (unat c mod 16)]"

definition quoteUnit :: "code_unit \<Rightarrow> jsstring" where
  "quoteUnit c =
     (if c = 0x08 then [0x5C, 0x62]
      else if c = 0x09 then [0x5C, 0x74]
      else if c = 0x0A then [0x5C, 0x6E]
      else if c = 0x0C then [0x5C, 0x66]
      else if c = 0x0D then [0x5C, 0x72]
      else if c = 0x22 then [0x5C, 0x22]
      else if c = 0x5C then [0x5C, 0x5C]
      else if c < 0x20 \<or> isHighSurrogate c \<or> isLowSurrogate c then unicodeEscape c
      else [c])"

fun quoteBody :: "jsstring \<Rightarrow> jsstring" where
  "quoteBody [] = []"
| "quoteBody [c] = quoteUnit c"
| "quoteBody (c # d # cs) =
     (if isHighSurrogate c \<and> isLowSurrogate d then c # d # quoteBody cs
      else quoteUnit c @ quoteBody (d # cs))"

definition JSON_stringify_string :: "jsstring \<Rightarrow> jsstring" where
  "JSON_stringify_string s = [0x22] @ quoteBody s @ [0x22]"

definition canonicalizeNumber :: "jsnum \<Rightarrow> jsstring" where
  "canonicalizeNumber num = (if \<not> isFinite num then lit ''null'' else Number_toString num)"

definition canonicalizeString :: "jsstring \<Rightarrow> jsstring" where
  "canonicalizeString str = JSON_stringify_string str"

definition sortedKeys :: "(jsstring \<times> jsval) list \<Rightarrow> jsstring list" where
  "sortedKeys kvs = sort (map fst kvs)"

text \<open>
  \<^verbatim>\<open>canonicalize\<close> with the bodies of \<^verbatim>\<open>canonicalizeArray\<close> and \<^verbatim>\<open>canonicalizeObject\<close> in
  place. A \<^verbatim>\<open>Date\<close> is an object without own enumerable keys; \<^verbatim>\<open>undefined\<close> falls through to
  the last \<^verbatim>\<open>return\<close>.
\<close>

lemma size_getOwn:
  "size (getOwn kvs k) \<le> size_list (size_prod (\<lambda>x. 0) size) kvs"
  by (induction kvs) (auto simp: getOwn_def)

function canonicalize :: "jsval \<Rightarrow> jsstring" where
  "canonicalize JNull = lit ''null''"
| "canonicalize (JBool b) = (if b then lit ''true'' else lit ''false'')"
| "canonicalize (JNum num) = canonicalizeNumber num"
| "canonicalize (JStr str) = canonicalizeString str"
| "canonicalize (JArr arr) =
     (if arr = [] then lit ''[]''
      else [0x5B] @ join [0x2C] (map canonicalize arr) @ [0x5D])"
| "canonicalize (JObj obj) =
     (if map fst obj = [] then lit ''{}''
      else [0x7B]
           @ join [0x2C]
               (map (\<lambda>key. canonicalizeString key @ [0x3A] @ canonicalize (getOwn obj key))
                  (sortedKeys obj))
           @ [0x7D])"
| "canonicalize (JDate t) = lit ''{}''"
| "canonicalize JUndefined = lit ''null''"
  by pat_completeness auto
termination
  by (relation "measure size") (auto simp: size_getOwn less_Suc_eq_le size_list_estimation')






section \<open>Dates\<close>

text \<open>
  The time value of a \<^verbatim>\<open>Date\<close> is a number of milliseconds since the epoch.
  \<^verbatim>\<open>toISOString\<close> prints it in UTC as \<^verbatim>\<open>YYYY-MM-DDTHH:mm:ss.sssZ\<close> (with a sign and six digits
  for a year outside 0..9999) and throws a \<^verbatim>\<open>RangeError\<close> on an invalid date.
\<close>

definition padDigits :: "nat \<Rightarrow> nat \<Rightarrow> jsstring" where
  "padDigits width n = replicate (width - length (decDigits n)) 0x30 @ decDigits n"

definition civilFromDays :: "int \<Rightarrow> int \<times> int \<times> int" where
  "civilFromDays days =
     (let z = days + 719468;
          era = z div 146097;
          doe = z mod 146097;
          yoe = (doe - doe div 1460 + doe div 36524 - doe div 146096) div 365;
          doy = doe - (365 * yoe + yoe div 4 - yoe div 100);
          mp = (5 * doy + 2) div 153;
          d = doy - (153 * mp + 2) div 5 + 1;
          m = (if mp < 10 then mp + 3 else mp - 9);
          y = yoe + era * 400
      in (if m \<le> 2 then y + 1 else y, m, d))"

definition daysFromCivil :: "int \<Rightarrow> int \<Rightarrow> int \<Rightarrow> int" where
  "daysFromCivil y m d =
     (let y' = (if m \<le> 2 then y - 1 else y);
          era = y' div 400;
          yoe = y' - era * 400;
          doy = (153 * (if m > 2 then m - 3 else m + 9) + 2) div 5 + d - 1;
          doe = yoe * 365 + yoe div 4 - yoe div 100 + doy
      in era * 146097 + doe - 719468)"

definition yearString :: "int \<Rightarrow> jsstring" where
  "yearString y =
     (if 0 \<le> y \<and> y \<le> 9999 then padDigits 4 (nat y)
      else (if y < 0 then [0x2D] else [0x2B]) @ padDigits 6 (nat \<bar>y\<bar>))"

definition toISOString :: "int option \<Rightarrow> error + jsstring" where
  "toISOString tv =
     (case tv of
        None \<Rightarrow> Inl (RangeError (lit ''Invalid time value''))
      | Some t \<Rightarrow>
          (case civilFromDays (t div 86400000) of (y, m, d) \<Rightarrow>
             let ms = t mod 86400000 in
             Inr (yearString y @ [0x2D] @ padDigits 2 (nat m) @ [0x2D] @ padDigits 2 (nat d)
                  @ [0x54] @ padDigits 2 (nat (ms div 3600000))
                  @ [0x3A] @ padDigits 2 (nat (ms div 60000 mod 60))
                  @ [0x3A] @ padDigits 2 (nat (ms div 1000 mod 60))
                  @ [0x2E] @ padDigits 3 (nat (ms mod 1000)) @ [0x5A])))"

text \<open>
  \<^verbatim>\<open>Date.parse\<close>. ECMAScript fixes the result for the date-time format; the model has the
  two forms \<^verbatim>\<open>YYYY-MM-DDTHH:mm:ssZ\<close> and \<^verbatim>\<open>YYYY-MM-DDTHH:mm:ss.sssZ\<close> with every field in its
  range. What an engine does with any other string (other forms of the format, local
  times, legacy formats, unparseable text) is implementation-defined and is a parameter:
  \<open>dateParseOther engine s\<close> is the time value, \<open>None\<close> for \<^verbatim>\<open>NaN\<close>.
\<close>

record Engine =
  dateParseOther :: "jsstring \<Rightarrow> int option"
  regExpReplaceAll :: "jsstring \<Rightarrow> jsstring \<Rightarrow> jsstring \<Rightarrow> error + jsstring"

definition daysInMonth :: "int \<Rightarrow> int \<Rightarrow> int" where
  "daysInMonth y m =
     (if m = 2 then (if y mod 4 = 0 \<and> (y mod 100 \<noteq> 0 \<or> y mod 400 = 0) then 29 else 28)
      else if m = 4 \<or> m = 6 \<or> m = 9 \<or> m = 11 then 30 else 31)"

definition fieldValue :: "jsstring \<Rightarrow> int option" where
  "fieldValue s = (if s \<noteq> [] \<and> list_all isDigit s then Some (int (digitsValue 0 s)) else None)"

definition parseISO :: "jsstring \<Rightarrow> int option" where
  "parseISO s =
     (if (length s = 20 \<or> length s = 24)
         \<and> s ! 4 = 0x2D \<and> s ! 7 = 0x2D \<and> s ! 10 = 0x54 \<and> s ! 13 = 0x3A \<and> s ! 16 = 0x3A
         \<and> last s = 0x5A \<and> (length s = 20 \<or> s ! 19 = 0x2E)
      then
        (case (fieldValue (take 4 s), fieldValue (take 2 (drop 5 s)),
               fieldValue (take 2 (drop 8 s)), fieldValue (take 2 (drop 11 s)),
               fieldValue (take 2 (drop 14 s)), fieldValue (take 2 (drop 17 s)),
               if length s = 24 then fieldValue (take 3 (drop 20 s)) else Some 0) of
           (Some y, Some m, Some d, Some h, Some mi, Some sec, Some ms) \<Rightarrow>
             if 1 \<le> m \<and> m \<le> 12 \<and> 1 \<le> d \<and> d \<le> daysInMonth y m \<and> h \<le> 23 \<and> mi \<le> 59
                \<and> sec \<le> 59
             then Some (daysFromCivil y m d * 86400000 + h * 3600000 + mi * 60000
                        + sec * 1000 + ms)
             else None
         | _ \<Rightarrow> None)
      else None)"

definition Date_parse :: "Engine \<Rightarrow> jsstring \<Rightarrow> int option" where
  "Date_parse engine s = (case parseISO s of Some t \<Rightarrow> Some t | None \<Rightarrow> dateParseOther engine s)"

section \<open>Normalization (normalizers.ts)\<close>

text \<open>An option that the caller left out is \<open>None\<close>; the code reads it as falsy.\<close>

record NormalizationOptions =
  normalizeDates :: "bool option"
  precision :: "int option"
  excludeNulls :: "bool option"
  excludeEmptyStrings :: "bool option"
  sortKeys :: "bool option"
  trimStrings :: "bool option"
  caseSensitive :: "bool option"
  useJCS :: "bool option"

definition isSet :: "bool option \<Rightarrow> bool" where
  "isSet b \<longleftrightarrow> b = Some True"

text \<open>
  \<^verbatim>\<open>Math.round(value * Math.pow(10, p)) / Math.pow(10, p)\<close> in exact decimal arithmetic;
  \<^verbatim>\<open>Math.round\<close> rounds a half towards plus infinity.
\<close>

definition normNum :: "int \<Rightarrow> int \<Rightarrow> jsnum" where
  "normNum m e = (case strip10 m e of (s, e') \<Rightarrow> Fin s e')"

definition roundToPrecision :: "int \<Rightarrow> jsnum \<Rightarrow> jsnum" where
  "roundToPrecision p x =
     (case x of
        Fin m e \<Rightarrow>
          (let k = e + p;
               r = (if 0 \<le> k then m * 10 ^ nat k
                    else (2 * m + 10 ^ nat (- k)) div (2 * 10 ^ nat (- k)))
           in normNum r (- p))
      | _ \<Rightarrow> x)"

text \<open>
  Own properties of a plain object. \<open>defineProperty\<close> creates or overwrites one: an
  existing key keeps its place; a new key that is an array index goes among the index
  keys, which \<^verbatim>\<open>Object.keys\<close> lists first and in ascending order; any other new key goes
  last. The assignment \<^verbatim>\<open>obj[k] = v\<close> is \<open>setProp\<close>: it does the same, except that the
  key \<^verbatim>\<open>__proto__\<close> runs the setter of \<^verbatim>\<open>Object.prototype\<close> and creates no own property.
\<close>

definition isArrayIndex :: "jsstring \<Rightarrow> bool" where
  "isArrayIndex k \<longleftrightarrow>
     k \<noteq> [] \<and> list_all isDigit k \<and> (k = [0x30] \<or> hd k \<noteq> 0x30) \<and> digitsValue 0 k < 4294967295"

definition defineProperty :: "(jsstring \<times> jsval) list \<Rightarrow> jsstring \<Rightarrow> jsval \<Rightarrow> (jsstring \<times> jsval) list" where
  "defineProperty obj k v =
     (if k \<in> set (map fst obj) then map (\<lambda>(k', v'). if k' = k then (k', v) else (k', v')) obj
      else if isArrayIndex k then
        takeWhile (\<lambda>(k', v'). isArrayIndex k' \<and> digitsValue 0 k' < digitsValue 0 k) obj
        @ [(k, v)]
        @ dropWhile (\<lambda>(k', v'). isArrayIndex k' \<and> digitsValue 0 k' < digitsValue 0 k) obj
      else obj @ [(k, v)])"

definition setProp :: "(jsstring \<times> jsval) list \<Rightarrow> jsstring \<Rightarrow> jsval \<Rightarrow> (jsstring \<times> jsval) list" where
  "setProp obj k v = (if k = lit ''__proto__'' then obj else defineProperty obj k v)"

text \<open>Running a list of computations in order; the first error is thrown.\<close>

fun sequence :: "(error + 'a) list \<Rightarrow> error + 'a list" where
  "sequence [] = Inr []"
| "sequence (x # xs) =
     (case x of
        Inl e \<Rightarrow> Inl e
      | Inr v \<Rightarrow> (case sequence xs of Inl e \<Rightarrow> Inl e | Inr vs \<Rightarrow> Inr (v # vs)))"

text \<open>
  The body of the \<^verbatim>\<open>for\<close> loop over the keys of an object, once the values are
  normalized: a value that is not \<^verbatim>\<open>undefined\<close> is stored under the normalized key.
\<close>

fun assignDefined :: "(jsstring \<times> jsval) list \<Rightarrow> (jsstring \<times> jsval) list \<Rightarrow> (jsstring \<times> jsval) list" where
  "assignDefined normalized [] = normalized"
| "assignDefined normalized ((normalizedKey, normalizedValue) # rest) =
     assignDefined
       (if normalizedValue \<noteq> JUndefined then setProp normalized normalizedKey normalizedValue
        else normalized)
       rest"

text \<open>
  \<^verbatim>\<open>normalizeValue\<close> on a tree. The set \<^verbatim>\<open>seen\<close> holds the objects met so far; in a tree
  every object is met once, so the test \<^verbatim>\<open>seen.has(value)\<close> is false throughout and the
  set is left out here (the version with the set is \<open>normalizeValueH\<close>).
\<close>

function normalizeValue :: "NormalizationOptions \<Rightarrow> jsval \<Rightarrow> error + jsval" where
  "normalizeValue options JNull = Inr (if isSet (excludeNulls options) then JUndefined else JNull)"
| "normalizeValue options JUndefined = Inr JUndefined"
| "normalizeValue options (JStr value) =
     (if isSet (excludeEmptyStrings options) \<and> value = [] then Inr JUndefined
      else
        let value1 = (if isSet (trimStrings options) then trim value else value);
            value2 = (if \<not> isSet (caseSensitive options) then toLowerCase value1 else value1)
        in Inr (JStr value2))"
| "normalizeValue options (JNum value) =
     (case precision options of
        Some p \<Rightarrow> Inr (JNum (roundToPrecision p value))
      | None \<Rightarrow> Inr (JNum value))"
| "normalizeValue options (JDate t) =
     (if isSet (normalizeDates options)
      then (case toISOString t of Inl e \<Rightarrow> Inl e | Inr s \<Rightarrow> Inr (JStr s))
      else Inr (JDate t))"
| "normalizeValue options (JArr value) =
     (case sequence (map (normalizeValue options) value) of
        Inl e \<Rightarrow> Inl e
      | Inr items \<Rightarrow> Inr (JArr (filter (\<lambda>item. item \<noteq> JUndefined) items)))"
| "normalizeValue options (JObj value) =
     (let keys = (if isSet (sortKeys options) then sort (map fst value) else map fst value)
      in case sequence (map (\<lambda>key. normalizeValue options (getOwn value key)) keys) of
           Inl e \<Rightarrow> Inl e
         | Inr normalizedValues \<Rightarrow>
             Inr (JObj (assignDefined []
               (zip (map (\<lambda>key. if isSet (caseSensitive options) then key else toLowerCase key)
                       keys)
                    normalizedValues))))"
| "normalizeValue options (JBool b) = Inr (JBool b)"
  by pat_completeness simp_all
termination
proof (relation "measure (\<lambda>(options, v). size v)", goal_cases)
  case 1
  show ?case by simp
next
  case (2 options xs x)
  then show ?case by (simp add: less_Suc_eq_le size_list_estimation')
next
  case (3 options kvs keys key)
  have "size (getOwn kvs key) \<le> size_list (size_prod (\<lambda>x. 0) size) kvs"
    by (rule size_getOwn)
  then show ?case by simp
qed


section \<open>Field transformations (transformations.ts)\<close>

text \<open>
  A transformation is a path string or an object with one operator; \<open>TOther\<close> is an
  object with none of the operators.
\<close>

datatype FieldTransformation =
    TDirect jsstring
  | TDate jsstring
  | TRound int
  | TLower jsstring
  | TUpper jsstring
  | TTrim jsstring
  | TReplace jsstring jsstring
  | TIf jsstring jsstring "jsstring option"
  | TExists jsstring
  | TDefault jsval
  | TOther

definition applyTransformation :: "Engine \<Rightarrow> jsval \<Rightarrow> jsstring \<Rightarrow> FieldTransformation \<Rightarrow> error + jsval" where
  "applyTransformation engine payload field transformation =
     (case transformation of
        TDirect path \<Rightarrow> Inr (getNestedValue payload path)
      | TDate path \<Rightarrow>
          (case getNestedValue payload path of
             JDate t \<Rightarrow> (case toISOString t of Inl e \<Rightarrow> Inl e | Inr s \<Rightarrow> Inr (JStr s))
           | JStr str \<Rightarrow>
               (case toISOString (Date_parse engine str) of
                  Inl e \<Rightarrow> Inl e
                | Inr s \<Rightarrow> Inr (JStr s))
           | v \<Rightarrow> Inr v)
      | TRound p \<Rightarrow>
          (case getNestedValue payload field of
             JNum x \<Rightarrow> Inr (JNum (roundToPrecision p x))
           | v \<Rightarrow> Inr v)
      | TLower path \<Rightarrow>
          (case getNestedValue payload path of
             JStr str \<Rightarrow> Inr (JStr (toLowerCase str))
           | v \<Rightarrow> Inr v)
      | TUpper path \<Rightarrow>
          (case getNestedValue payload path of
             JStr str \<Rightarrow> Inr (JStr (toUpperCase str))
           | v \<Rightarrow> Inr v)
      | TTrim path \<Rightarrow>
          (case getNestedValue payload path of
             JStr str \<Rightarrow> Inr (JStr (trim str))
           | v \<Rightarrow> Inr v)
      | TReplace from to \<Rightarrow>
          (case getNestedValue payload field of
             JStr str \<Rightarrow>
               (case regExpReplaceAll engine from to str of
                  Inl e \<Rightarrow> Inl e
                | Inr s \<Rightarrow> Inr (JStr s))
           | v \<Rightarrow> Inr v)
      | TIf condition thenPath elsePath \<Rightarrow>
          (if truthy (getNestedValue payload condition)
           then Inr (getNestedValue payload thenPath)
           else (case elsePath of
                   Some p \<Rightarrow> Inr (if p \<noteq> [] then getNestedValue payload p else JUndefined)
                 | None \<Rightarrow> Inr JUndefined))
      | TExists path \<Rightarrow>
          (let v = getNestedValue payload path in Inr (JBool (v \<noteq> JUndefined \<and> v \<noteq> JNull)))
      | TDefault d \<Rightarrow>
          (let v = getNestedValue payload field
           in Inr (if v \<noteq> JUndefined \<and> v \<noteq> JNull then v else d))
      | TOther \<Rightarrow> Inr (getNestedValue payload field))"





section \<open>Strategies (normalizers.ts, strategies.ts, index.ts)\<close>

definition toJCSString :: "jsval \<Rightarrow> jsstring" where
  "toJCSString v = canonicalize v"








definition noOptions :: NormalizationOptions where
  "noOptions =
     \<lparr>normalizeDates = None, precision = None, excludeNulls = None, excludeEmptyStrings = None,
      sortKeys = None, trimStrings = None, caseSensitive = None, useJCS = None\<rparr>"




text \<open>\<^verbatim>\<open>str.includes(sub)\<close> for a substring.\<close>

fun isPrefix :: "jsstring \<Rightarrow> jsstring \<Rightarrow> bool" where
  "isPrefix [] s = True"
| "isPrefix (p # ps) [] = False"
| "isPrefix (p # ps) (c # cs) = (p = c \<and> isPrefix ps cs)"


definition isISODateString :: "Engine \<Rightarrow> jsstring \<Rightarrow> bool" where
  "isISODateString engine str \<longleftrightarrow>
     Date_parse engine str \<noteq> None \<and> str_includes str 0x54 \<and> str_includes str 0x5A"

text \<open>\<^verbatim>\<open>processed[key] = preprocessDates(value)\<close> for the entries of an object, in order.\<close>

fun assignAll :: "(jsstring \<times> jsval) list \<Rightarrow> (jsstring \<times> jsval) list \<Rightarrow> (jsstring \<times> jsval) list" where
  "assignAll processed [] = processed"
| "assignAll processed ((key, v) # rest) = assignAll (setProp processed key v) rest"

fun preprocessDates :: "Engine \<Rightarrow> jsval \<Rightarrow> error + jsval" where
  "preprocessDates engine JNull = Inr JNull"
| "preprocessDates engine JUndefined = Inr JUndefined"
| "preprocessDates engine (JDate t) =
     (case toISOString t of Inl e \<Rightarrow> Inl e | Inr s \<Rightarrow> Inr (JStr s))"
| "preprocessDates engine (JStr str) =
     (if isISODateString engine str
      then (case toISOString (Date_parse engine str) of
              Inl e \<Rightarrow> Inl e
            | Inr s \<Rightarrow> Inr (JStr s))
      else Inr (JStr str))"
| "preprocessDates engine (JArr xs) =
     (case sequence (map (preprocessDates engine) xs) of
        Inl e \<Rightarrow> Inl e
      | Inr ys \<Rightarrow> Inr (JArr ys))"
| "preprocessDates engine (JObj kvs) =
     (case sequence (map (\<lambda>(key, v). preprocessDates engine v) kvs) of
        Inl e \<Rightarrow> Inl e
      | Inr vs \<Rightarrow> Inr (JObj (assignAll [] (zip (map fst kvs) vs))))"
| "preprocessDates engine (JBool b) = Inr (JBool b)"
| "preprocessDates engine (JNum x) = Inr (JNum x)"










section \<open>Normalization of object graphs\<close>

text \<open>
  Values with references: an array or a plain object lives in the heap at an address, and
  a value may refer to it from several places, or from inside itself. The heap is total;
  an address that is not in use holds the empty object.
\<close>

type_synonym addr = nat

datatype hval =
    HUndefined
  | HNull
  | HBool bool
  | HNum jsnum
  | HStr jsstring
  | HDate "int option"
  | HRef addr

datatype hobj = HArray "hval list" | HObject "(jsstring \<times> hval) list"

type_synonym heap = "addr \<Rightarrow> hobj"

definition leafValue :: "hval \<Rightarrow> jsval" where
  "leafValue v =
     (case v of
        HUndefined \<Rightarrow> JUndefined
      | HNull \<Rightarrow> JNull
      | HBool b \<Rightarrow> JBool b
      | HNum x \<Rightarrow> JNum x
      | HStr s \<Rightarrow> JStr s
      | HDate t \<Rightarrow> JDate t
      | HRef a \<Rightarrow> JUndefined)"

definition getOwnH :: "(jsstring \<times> hval) list \<Rightarrow> jsstring \<Rightarrow> hval" where
  "getOwnH kvs k = (case map_of kvs k of Some v \<Rightarrow> v | None \<Rightarrow> HUndefined)"

text \<open>
  \<^verbatim>\<open>normalizeValue\<close> with its third argument. \<open>seen\<close> is the \<^verbatim>\<open>WeakSet\<close>: the code adds an
  object before it walks its keys and never removes it, and it does not consult the set
  for an array. The set is shared by the whole call tree, so it is passed in and
  returned. The recursion of the code need not end on a cyclic graph: the first argument
  bounds the depth of the calls, and \<open>None\<close> means that this depth does not suffice.
\<close>

fun normalizeValueH ::
    "nat \<Rightarrow> heap \<Rightarrow> NormalizationOptions \<Rightarrow> addr set \<Rightarrow> hval
       \<Rightarrow> ((error + jsval) \<times> addr set) option"
  and normalizeListH ::
    "nat \<Rightarrow> heap \<Rightarrow> NormalizationOptions \<Rightarrow> addr set \<Rightarrow> hval list
       \<Rightarrow> ((error + jsval list) \<times> addr set) option" where
  "normalizeValueH 0 h options seen v = None"
| "normalizeValueH (Suc depth) h options seen v =
     (case v of
        HRef a \<Rightarrow>
          (case h a of
             HArray items \<Rightarrow>
               (case normalizeListH depth h options seen items of
                  None \<Rightarrow> None
                | Some (Inl e, seen') \<Rightarrow> Some (Inl e, seen')
                | Some (Inr normalized, seen') \<Rightarrow>
                    Some (Inr (JArr (filter (\<lambda>item. item \<noteq> JUndefined) normalized)), seen'))
           | HObject kvs \<Rightarrow>
               if a \<in> seen then Some (Inr (JStr (lit ''[Circular]'')), seen)
               else
                 (let keys = (if isSet (sortKeys options) then sort (map fst kvs)
                              else map fst kvs)
                  in case normalizeListH depth h options (insert a seen)
                            (map (getOwnH kvs) keys) of
                       None \<Rightarrow> None
                     | Some (Inl e, seen') \<Rightarrow> Some (Inl e, seen')
                     | Some (Inr normalizedValues, seen') \<Rightarrow>
                         Some (Inr (JObj (assignDefined []
                                 (zip (map (\<lambda>key. if isSet (caseSensitive options) then key
                                                  else toLowerCase key) keys)
                                      normalizedValues))),
                               seen')))
      | _ \<Rightarrow> Some (normalizeValue options (leafValue v), seen))"
| "normalizeListH depth h options seen [] = Some (Inr [], seen)"
| "normalizeListH depth h options seen (x # xs) =
     (case normalizeValueH depth h options seen x of
        None \<Rightarrow> None
      | Some (Inl e, seen') \<Rightarrow> Some (Inl e, seen')
      | Some (Inr v, seen') \<Rightarrow>
          (case normalizeListH depth h options seen' xs of
             None \<Rightarrow> None
           | Some (Inl e, seen'') \<Rightarrow> Some (Inl e, seen'')
           | Some (Inr vs, seen'') \<Rightarrow> Some (Inr (v # vs), seen'')))"

section \<open>JSON.parse and the canonical-form check (jcs.ts)\<close>

text \<open>
  \<^verbatim>\<open>JSON.parse\<close> as a recursive-descent parser of the JSON grammar of ECMAScript, on code
  units. A number literal denotes its exact decimal value. \<open>None\<close> is a \<^verbatim>\<open>SyntaxError\<close>.
\<close>

definition isJsonWs :: "code_unit \<Rightarrow> bool" where
  "isJsonWs c \<longleftrightarrow> c = 0x09 \<or> c = 0x0A \<or> c = 0x0D \<or> c = 0x20"

definition skipWs :: "jsstring \<Rightarrow> jsstring" where
  "skipWs s = dropWhile isJsonWs s"

definition hexValue :: "code_unit \<Rightarrow> nat option" where
  "hexValue c =
     (if 0x30 \<le> c \<and> c \<le> 0x39 then Some (unat c - 48)
      else if 0x61 \<le> c \<and> c \<le> 0x66 then Some (unat c - 87)
      else if 0x41 \<le> c \<and> c \<le> 0x46 then Some (unat c - 55)
      else None)"

definition unescape :: "code_unit \<Rightarrow> code_unit option" where
  "unescape e =
     (if e = 0x22 then Some 0x22
      else if e = 0x5C then Some 0x5C
      else if e = 0x2F then Some 0x2F
      else if e = 0x62 then Some 0x08
      else if e = 0x66 then Some 0x0C
      else if e = 0x6E then Some 0x0A
      else if e = 0x72 then Some 0x0D
      else if e = 0x74 then Some 0x09
      else None)"

definition consUnit :: "code_unit \<Rightarrow> (jsstring \<times> jsstring) option \<Rightarrow> (jsstring \<times> jsstring) option" where
  "consUnit c r = (case r of None \<Rightarrow> None | Some (str, rest) \<Rightarrow> Some (c # str, rest))"

text \<open>The characters of a string literal after the opening quote, up to the closing one.\<close>

fun parseStringBody :: "jsstring \<Rightarrow> (jsstring \<times> jsstring) option" where
  "parseStringBody [] = None"
| "parseStringBody (c # cs) =
     (if c = 0x22 then Some ([], cs)
      else if c = 0x5C then
        (case cs of
           [] \<Rightarrow> None
         | e # es \<Rightarrow>
             if e = 0x75 then
               (case es of
                  h1 # h2 # h3 # h4 # r \<Rightarrow>
                    (case (hexValue h1, hexValue h2, hexValue h3, hexValue h4) of
                       (Some a, Some b, Some c', Some d) \<Rightarrow>
                         consUnit (of_nat (a * 4096 + b * 256 + c' * 16 + d)) (parseStringBody r)
                     | _ \<Rightarrow> None)
                | _ \<Rightarrow> None)
             else (case unescape e of
                     None \<Rightarrow> None
                   | Some u \<Rightarrow> consUnit u (parseStringBody es)))
      else if c < 0x20 then None
      else consUnit c (parseStringBody cs))"

definition parseFraction :: "jsstring \<Rightarrow> (jsstring \<times> jsstring) option" where
  "parseFraction s =
     (if s \<noteq> [] \<and> hd s = 0x2E
      then (if takeWhile isDigit (tl s) = [] then None
            else Some (takeWhile isDigit (tl s), dropWhile isDigit (tl s)))
      else Some ([], s))"

definition parseExponent :: "jsstring \<Rightarrow> (int \<times> jsstring) option" where
  "parseExponent s =
     (if s \<noteq> [] \<and> (hd s = 0x65 \<or> hd s = 0x45)
      then (let s1 = tl s;
                neg = (s1 \<noteq> [] \<and> hd s1 = 0x2D);
                s2 = (if s1 \<noteq> [] \<and> (hd s1 = 0x2D \<or> hd s1 = 0x2B) then tl s1 else s1)
            in if takeWhile isDigit s2 = [] then None
               else Some ((if neg then -1 else 1) * int (digitsValue 0 (takeWhile isDigit s2)),
                          dropWhile isDigit s2))
      else Some (0, s))"

definition parseNumber :: "jsstring \<Rightarrow> (jsnum \<times> jsstring) option" where
  "parseNumber s =
     (let neg = (s \<noteq> [] \<and> hd s = 0x2D);
          s1 = (if neg then tl s else s);
          intDigits = takeWhile isDigit s1
      in if intDigits = [] \<or> (hd intDigits = 0x30 \<and> length intDigits > 1) then None
         else case parseFraction (dropWhile isDigit s1) of
                None \<Rightarrow> None
              | Some (fracDigits, s3) \<Rightarrow>
                  (case parseExponent s3 of
                     None \<Rightarrow> None
                   | Some (ex, s4) \<Rightarrow>
                       Some (normNum ((if neg then -1 else 1)
                                        * int (digitsValue 0 (intDigits @ fracDigits)))
                               (ex - int (length fracDigits)),
                             s4)))"

text \<open>\<^verbatim>\<open>JSON.parse\<close> creates the properties of an object in source order; a repeated key
  keeps its place and takes the later value.\<close>

fun defineAll :: "(jsstring \<times> jsval) list \<Rightarrow> (jsstring \<times> jsval) list \<Rightarrow> (jsstring \<times> jsval) list" where
  "defineAll obj [] = obj"
| "defineAll obj ((k, v) # rest) = defineAll (defineProperty obj k v) rest"

text \<open>
  The first argument bounds the depth of the calls; twice the length of the text
  suffices, since of two nested calls one consumes a character.
\<close>

fun parseValue :: "nat \<Rightarrow> jsstring \<Rightarrow> (jsval \<times> jsstring) option"
  and parseElements :: "nat \<Rightarrow> jsstring \<Rightarrow> (jsval list \<times> jsstring) option"
  and parseMembers :: "nat \<Rightarrow> jsstring \<Rightarrow> ((jsstring \<times> jsval) list \<times> jsstring) option" where
  "parseValue 0 s = None"
| "parseValue (Suc n) s =
     (case skipWs s of
        [] \<Rightarrow> None
      | c # cs \<Rightarrow>
          if c = 0x22 then
            (case parseStringBody cs of None \<Rightarrow> None | Some (str, r) \<Rightarrow> Some (JStr str, r))
          else if c = 0x5B then
            (case skipWs cs of
               [] \<Rightarrow> None
             | d # ds \<Rightarrow>
                 if d = 0x5D then Some (JArr [], ds)
                 else (case parseElements n (d # ds) of
                         None \<Rightarrow> None
                       | Some (xs, r) \<Rightarrow> Some (JArr xs, r)))
          else if c = 0x7B then
            (case skipWs cs of
               [] \<Rightarrow> None
             | d # ds \<Rightarrow>
                 if d = 0x7D then Some (JObj [], ds)
                 else (case parseMembers n (d # ds) of
                         None \<Rightarrow> None
                       | Some (kvs, r) \<Rightarrow> Some (JObj (defineAll [] kvs), r)))
          else if isPrefix (lit ''null'') (c # cs) then Some (JNull, drop 4 (c # cs))
          else if isPrefix (lit ''true'') (c # cs) then Some (JBool True, drop 4 (c # cs))
          else if isPrefix (lit ''false'') (c # cs) then Some (JBool False, drop 5 (c # cs))
          else if c = 0x2D \<or> isDigit c then
            (case parseNumber (c # cs) of None \<Rightarrow> None | Some (x, r) \<Rightarrow> Some (JNum x, r))
          else None)"
| "parseElements 0 s = None"
| "parseElements (Suc n) s =
     (case parseValue n s of
        None \<Rightarrow> None
      | Some (v, r) \<Rightarrow>
          (case skipWs r of
             [] \<Rightarrow> None
           | c # cs \<Rightarrow>
               if c = 0x2C then
                 (case parseElements n cs of
                    None \<Rightarrow> None
                  | Some (vs, r') \<Rightarrow> Some (v # vs, r'))
               else if c = 0x5D then Some ([v], cs)
               else None))"
| "parseMembers 0 s = None"
| "parseMembers (Suc n) s =
     (case skipWs s of
        [] \<Rightarrow> None
      | c # cs \<Rightarrow>
          if c \<noteq> 0x22 then None
          else (case parseStringBody cs of
                  None \<Rightarrow> None
                | Some (k, r) \<Rightarrow>
                    (case skipWs r of
                       [] \<Rightarrow> None
                     | d # ds \<Rightarrow>
                         if d \<noteq> 0x3A then None
                         else (case parseValue n ds of
                                 None \<Rightarrow> None
                               | Some (v, r2) \<Rightarrow>
                                   (case skipWs r2 of
                                      [] \<Rightarrow> None
                                    | e # es \<Rightarrow>
                                        if e = 0x2C then
                                          (case parseMembers n es of
                                             None \<Rightarrow> None
                                           | Some (kvs, r') \<Rightarrow> Some ((k, v) # kvs, r'))
                                        else if e = 0x7D then Some ([(k, v)], es)
                                        else None)))))"

definition JSON_parse :: "jsstring \<Rightarrow> error + jsval" where
  "JSON_parse text =
     (case parseValue (2 * length text + 2) text of
        None \<Rightarrow> Inl (SyntaxError (lit ''Unexpected token in JSON''))
      | Some (v, r) \<Rightarrow>
          if skipWs r = [] then Inr v else Inl (SyntaxError (lit ''Unexpected token in JSON'')))"

definition isJCSCompliant :: "jsstring \<Rightarrow> bool" where
  "isJCSCompliant str =
     (case JSON_parse str of
        Inl e \<Rightarrow> False
      | Inr parsed \<Rightarrow> str = toJCSString parsed)"

text \<open>What may follow a number literal for the literal to end there.\<close>

definition numberRest :: "jsstring \<Rightarrow> bool" where
  "numberRest rest \<longleftrightarrow>
     rest = [] \<or> (\<not> isDigit (hd rest) \<and> hd rest \<noteq> 0x2E \<and> hd rest \<noteq> 0x65 \<and> hd rest \<noteq> 0x45)"

text \<open>
  The own keys of a JavaScript object are pairwise distinct; a value is well formed when
  every object in it is listed with each key once.
\<close>

fun uniqueKeys :: "jsval \<Rightarrow> bool" where
  "uniqueKeys (JArr xs) = list_all uniqueKeys xs"
| "uniqueKeys (JObj kvs) = (distinct (map fst kvs) \<and> list_all (\<lambda>kv. uniqueKeys (snd kv)) kvs)"
| "uniqueKeys v = True"

text \<open>What follows a value inside a canonical text: the end, a comma or a closing bracket.\<close>

definition valueRest :: "jsstring \<Rightarrow> bool" where
  "valueRest rest \<longleftrightarrow> rest = [] \<or> hd rest = 0x2C \<or> hd rest = 0x5D \<or> hd rest = 0x7D"

text \<open>The code units a canonical text of a value can begin with.\<close>

definition valueStart :: "code_unit \<Rightarrow> bool" where
  "valueStart c \<longleftrightarrow>
     c = 0x22 \<or> c = 0x5B \<or> c = 0x7B \<or> c = 0x6E \<or> c = 0x74 \<or> c = 0x66 \<or> c = 0x2D \<or> isDigit c"

section \<open>Properties of path resolution\<close>





text \<open>
  C10: a path that resolves to a stored \<^verbatim>\<open>undefined\<close> gives the same three answers as a
  path that does not resolve: \<^verbatim>\<open>getNestedValue\<close> returns \<^verbatim>\<open>undefined\<close>, \<^verbatim>\<open>hasNestedValue\<close>
  returns false, and \<^verbatim>\<open>getNestedValueEnhanced\<close> goes on to its fallback, the lookup of the
  whole path as one key when the path contains a dot.
\<close>

theorem undefined_indistinguishable_from_absent:
  assumes "getNestedValue_loop obj (parsePath path) = Some JUndefined
           \<or> getNestedValue_loop obj (parsePath path) = None"
  shows "getNestedValue obj path = JUndefined
    \<and> hasNestedValue obj path = False
    \<and> getNestedValueEnhanced obj path =
        (if path \<noteq> [] \<and> truthy obj \<and> str_includes path 0x2E then getDirect obj path
         else JUndefined)"
  using assms
  by (auto simp: getNestedValue_def hasNestedValue_def getNestedValueEnhanced_def)

theorem undefined_indistinguishable_from_absent_witness:
  "getNestedValue_loop
      (JObj [(lit ''a'', JObj [(lit ''b'', JUndefined)]), (lit ''a.b'', JNum (Fin 1 0))])
      (parsePath (lit ''a.b'')) = Some JUndefined
   \<and> getNestedValue
      (JObj [(lit ''a'', JObj [(lit ''b'', JUndefined)]), (lit ''a.b'', JNum (Fin 1 0))])
      (lit ''a.b'') = JUndefined
   \<and> hasNestedValue
      (JObj [(lit ''a'', JObj [(lit ''b'', JUndefined)]), (lit ''a.b'', JNum (Fin 1 0))])
      (lit ''a.b'') = False
   \<and> getNestedValueEnhanced
      (JObj [(lit ''a'', JObj [(lit ''b'', JUndefined)]), (lit ''a.b'', JNum (Fin 1 0))])
      (lit ''a.b'') = JNum (Fin 1 0)"
proof -
  let ?obj = "JObj [(lit ''a'', JObj [(lit ''b'', JUndefined)]), (lit ''a.b'', JNum (Fin 1 0))]"
  have h: "getNestedValue_loop ?obj (parsePath (lit ''a.b'')) = Some JUndefined"
    by code_simp
  have d: "(if lit ''a.b'' \<noteq> [] \<and> truthy ?obj \<and> str_includes (lit ''a.b'') 0x2E
            then getDirect ?obj (lit ''a.b'') else JUndefined) = JNum (Fin 1 0)"
    by code_simp
  from undefined_indistinguishable_from_absent [of ?obj "lit ''a.b''"] h d
  show ?thesis by simp
qed

section \<open>Properties of hashing\<close>

text \<open>
  C8: \<^verbatim>\<open>validateHash\<close> always returns a boolean. When \<^verbatim>\<open>createHashWithConfig\<close> throws, it
  returns false; this is the case for an HMAC algorithm with no secret key and no key
  generation.
\<close>

theorem validateHash_never_throws:
  "(\<exists>b. validateHash crypto data expectedHash config = Inr b)
   \<and> (\<forall>e. createHashWithConfig crypto data config = Inl e
          \<longrightarrow> validateHash crypto data expectedHash config = Inr False)
   \<and> ((algorithm config = Some HmacSha256 \<or> algorithm config = Some HmacSha512)
        \<and> (secretKey config = None \<or> secretKey config = Some [])
        \<and> (generateKey config = None \<or> generateKey config = Some False)
       \<longrightarrow> (\<exists>e. createHashWithConfig crypto data config = Inl e)
           \<and> validateHash crypto data expectedHash config = Inr False)"
  by (auto simp: validateHash_def try_catch_def createHashWithConfig_def Let_def
           split: sum.splits option.splits HashingAlgorithm.splits)

theorem validateHash_never_throws_witness:
  "createHashWithConfig
      \<lparr>sha256 = (\<lambda>d. d), sha512 = (\<lambda>d. d), hmacSha256 = (\<lambda>k d. k @ d),
       hmacSha512 = (\<lambda>k d. k @ d), randomBytesHex = (\<lambda>n. replicate (2 * n) 0x30)\<rparr>
      (lit ''test data'')
      \<lparr>algorithm = Some HmacSha256, secretKey = None, keyId = None, generateKey = None\<rparr>
     = Inl (Error (lit ''Secret key is required for HMAC-SHA256''))
   \<and> validateHash
      \<lparr>sha256 = (\<lambda>d. d), sha512 = (\<lambda>d. d), hmacSha256 = (\<lambda>k d. k @ d),
       hmacSha512 = (\<lambda>k d. k @ d), randomBytesHex = (\<lambda>n. replicate (2 * n) 0x30)\<rparr>
      (lit ''test data'') (lit ''some-hash'')
      \<lparr>algorithm = Some HmacSha256, secretKey = None, keyId = None, generateKey = None\<rparr>
     = Inr False"
proof -
  let ?crypto = "\<lparr>sha256 = (\<lambda>d. d), sha512 = (\<lambda>d. d), hmacSha256 = (\<lambda>k d. k @ d),
       hmacSha512 = (\<lambda>k d. k @ d), randomBytesHex = (\<lambda>n. replicate (2 * n) 0x30)\<rparr>"
  let ?config = "\<lparr>algorithm = Some HmacSha256, secretKey = None, keyId = None,
       generateKey = None\<rparr>"
  have e: "createHashWithConfig ?crypto (lit ''test data'') ?config
             = Inl (Error (lit ''Secret key is required for HMAC-SHA256''))"
    by (simp add: createHashWithConfig_def)
  from validateHash_never_throws [of ?crypto "lit ''test data''" "lit ''some-hash''" ?config] e
  show ?thesis by simp
qed

section \<open>Properties of canonical serialization\<close>










section \<open>Properties of normalization\<close>

lemma map_of_update_existing:
  "map_of (map (\<lambda>(k', v'). if k' = k then (k', v) else (k', v')) obj) k' =
     (if k' = k then (if k \<in> fst ` set obj then Some v else None) else map_of obj k')"
  by (induction obj) force+

lemma map_of_insert_mid:
  "k \<notin> fst ` set xs \<Longrightarrow>
     map_of (xs @ (k, v) # ys) k' = (if k' = k then Some v else map_of (xs @ ys) k')"
  by (induction xs) auto

lemma map_of_insert_between:
  assumes "k \<notin> fst ` set obj"
  shows "map_of (takeWhile P obj @ [(k, v)] @ dropWhile P obj) k' =
           (if k' = k then Some v else map_of obj k')"
proof -
  have "k \<notin> fst ` set (takeWhile P obj)"
    using assms by (auto dest: set_takeWhileD)
  then have "map_of (takeWhile P obj @ (k, v) # dropWhile P obj) k' =
               (if k' = k then Some v else map_of (takeWhile P obj @ dropWhile P obj) k')"
    by (rule map_of_insert_mid)
  then show ?thesis by simp
qed

lemma map_of_defineProperty:
  "map_of (defineProperty obj k v) k' = (if k' = k then Some v else map_of obj k')"
proof (cases "k \<in> fst ` set obj")
  case True
  then show ?thesis
    by (simp add: defineProperty_def map_of_update_existing)
next
  case False
  show ?thesis
  proof (cases "isArrayIndex k")
    case True
    with False show ?thesis
      using map_of_insert_between [OF False] by (simp add: defineProperty_def)
  next
    case nidx: False
    have "map_of (obj @ (k, v) # []) k' = (if k' = k then Some v else map_of (obj @ []) k')"
      using False by (rule map_of_insert_mid)
    with False nidx show ?thesis
      by (simp add: defineProperty_def)
  qed
qed


lemma distinct_insert_mid:
  "distinct (map fst (xs @ ys)) \<Longrightarrow> k \<notin> fst ` set (xs @ ys) \<Longrightarrow>
     distinct (map fst (xs @ (k, v) # ys))"
  by auto

lemma map_fst_update:
  "map fst (map (\<lambda>(k', v'). if k' = k then (k', v) else (k', v')) obj) = map fst obj"
  by (induction obj) auto

lemma distinct_defineProperty:
  assumes "distinct (map fst obj)"
  shows "distinct (map fst (defineProperty obj k v))"
proof (cases "k \<in> fst ` set obj")
  case True
  with assms show ?thesis
    by (simp add: defineProperty_def map_fst_update del: map_map)
next
  case False
  have "distinct (map fst (takeWhile P obj @ (k, v) # dropWhile P obj))" for P
    by (rule distinct_insert_mid) (use assms False in simp_all)
  moreover have "distinct (map fst (obj @ (k, v) # []))"
    by (rule distinct_insert_mid) (use assms False in simp_all)
  ultimately show ?thesis
    using False by (simp add: defineProperty_def)
qed


lemma keys_defineProperty:
  "fst ` set (defineProperty obj k v) = insert k (fst ` set obj)"
proof (cases "k \<in> fst ` set obj")
  case True
  have "fst ` set (map (\<lambda>(k', v'). if k' = k then (k', v) else (k', v')) obj) = fst ` set obj"
    using map_fst_update [of k v obj] by (metis set_map)
  with True show ?thesis
    by (auto simp: defineProperty_def)
next
  case False
  have "set (takeWhile P obj @ (k, v) # dropWhile P obj) = insert (k, v) (set obj)" for P
  proof -
    have "set (takeWhile P obj @ dropWhile P obj) = set obj" by simp
    then show ?thesis unfolding set_append by auto
  qed
  with False show ?thesis
    by (simp add: defineProperty_def)
qed







section \<open>Properties of the strategies and transformations\<close>














text \<open>
  C5 fails on the code: for a string value the \<^verbatim>\<open>$date\<close> transformation calls
  \<^verbatim>\<open>new Date(value).toISOString()\<close> without a check, so on the string \<^verbatim>\<open>hello\<close> it throws a
  \<^verbatim>\<open>RangeError\<close> in every engine that does not parse \<^verbatim>\<open>hello\<close> as a date, where the claim
  has the raw value returned. The date pre-pass of the semantic strategy checks first
  and returns the string unchanged.
\<close>

theorem date_transformation_throws_on_unparseable_string:
  "applyTransformation engine (JObj [(lit ''when'', JStr (lit ''hello''))]) (lit ''when'')
     (TDate (lit ''when''))
   = (case dateParseOther engine (lit ''hello'') of
        None \<Rightarrow> Inl (RangeError (lit ''Invalid time value''))
      | Some t \<Rightarrow> (case toISOString (Some t) of Inl e \<Rightarrow> Inl e | Inr s \<Rightarrow> Inr (JStr s)))
   \<and> preprocessDates engine (JStr (lit ''hello'')) = Inr (JStr (lit ''hello''))"
proof -
  have g: "getNestedValue (JObj [(lit ''when'', JStr (lit ''hello''))]) (lit ''when'')
             = JStr (lit ''hello'')"
    by code_simp
  have p: "parseISO (lit ''hello'') = None"
    by code_simp
  have i: "\<not> str_includes (lit ''hello'') 0x54"
    by code_simp
  show ?thesis
    by (simp add: applyTransformation_def g Date_parse_def p isISODateString_def i
          toISOString_def split: option.splits)
qed

section \<open>Properties of normalization on object graphs\<close>

lemma cyclic_array_never_returns:
  "normalizeValueH depth ((\<lambda>a. HObject [])(0 := HArray [HRef 0])) options seen (HRef 0) = None"
proof (induction depth arbitrary: seen)
  case 0
  then show ?case by simp
next
  case (Suc depth)
  then show ?case by simp
qed

lemma seen_only_grows:
  "normalizeValueH depth h options seen v = Some (r, seen') \<Longrightarrow> seen \<subseteq> seen'"
  "normalizeListH depth h options seen vs = Some (rs, seen') \<Longrightarrow> seen \<subseteq> seen'"
proof (induction depth h options seen v and depth h options seen vs
         arbitrary: r seen' and rs seen' rule: normalizeValueH_normalizeListH.induct)
  case (1 h options seen v)
  then show ?case by simp
next
  case (2 depth h options seen v)
  show ?case
  proof (cases v)
    case (HRef a)
    show ?thesis
    proof (cases "h a")
      case (HArray items)
      with HRef "2.prems" obtain rs where "normalizeListH depth h options seen items = Some (rs, seen')"
        by (auto split: option.splits sum.splits prod.splits)
      with "2.IH"(1) [OF HRef HArray] show ?thesis by blast
    next
      case (HObject kvs)
      show ?thesis
      proof (cases "a \<in> seen")
        case True
        with HRef HObject "2.prems" show ?thesis by simp
      next
        case False
        let ?keys = "if isSet (sortKeys options) then sort (map fst kvs) else map fst kvs"
        from HRef HObject False "2.prems" obtain rs where
          "normalizeListH depth h options (insert a seen) (map (getOwnH kvs) ?keys) = Some (rs, seen')"
          by (auto simp: Let_def split: option.splits sum.splits prod.splits)
        with "2.IH"(2) [OF HRef HObject False refl] have "insert a seen \<subseteq> seen'" by blast
        then show ?thesis by blast
      qed
    qed
  qed (use "2.prems" in auto)
next
  case (3 depth h options seen)
  then show ?case by simp
next
  case (4 depth h options seen x xs)
  from "4.prems" obtain r1 s1 where
    x: "normalizeValueH depth h options seen x = Some (r1, s1)"
    by (auto split: option.splits)
  from "4.IH"(1) [OF x] have a: "seen \<subseteq> s1" .
  show ?case
  proof (cases r1)
    case (Inl e)
    with x "4.prems" have "seen' = s1" by simp
    with a show ?thesis by simp
  next
    case (Inr v)
    with x "4.prems" obtain rs' where
      xs: "normalizeListH depth h options s1 xs = Some (rs', seen')"
      by (auto split: option.splits sum.splits prod.splits)
    from "4.IH"(2) [OF x [unfolded Inr] refl refl xs] have "s1 \<subseteq> seen'" .
    with a show ?thesis by blast
  qed
qed

lemma one_more_depth:
  "normalizeValueH depth h options seen v = Some r \<Longrightarrow>
     normalizeValueH (Suc depth) h options seen v = Some r"
  "normalizeListH depth h options seen vs = Some rs \<Longrightarrow>
     normalizeListH (Suc depth) h options seen vs = Some rs"
proof (induction depth h options seen v and depth h options seen vs
         arbitrary: r and rs rule: normalizeValueH_normalizeListH.induct)
  case (1 h options seen v)
  then show ?case by simp
next
  case (2 depth h options seen v)
  show ?case
  proof (cases v)
    case (HRef a)
    show ?thesis
    proof (cases "h a")
      case (HArray items)
      with HRef "2.prems" obtain rs where
        l: "normalizeListH depth h options seen items = Some rs"
        by (auto split: option.splits)
      from "2.IH"(1) [OF HRef HArray l]
      have l': "normalizeListH (Suc depth) h options seen items = Some rs" .
      have "normalizeValueH (Suc (Suc depth)) h options seen v
              = normalizeValueH (Suc depth) h options seen v"
        unfolding normalizeValueH.simps(2) [of "Suc depth"] normalizeValueH.simps(2) [of depth]
        by (simp only: HRef HArray hval.case hobj.case l l')
      with "2.prems" show ?thesis by simp
    next
      case (HObject kvs)
      show ?thesis
      proof (cases "a \<in> seen")
        case True
        with HRef HObject "2.prems" show ?thesis by simp
      next
        case False
        let ?keys = "if isSet (sortKeys options) then sort (map fst kvs) else map fst kvs"
        from HRef HObject False "2.prems" obtain rs where
          l: "normalizeListH depth h options (insert a seen) (map (getOwnH kvs) ?keys) = Some rs"
          by (auto simp: Let_def split: option.splits)
        from "2.IH"(2) [OF HRef HObject False refl l]
        have l': "normalizeListH (Suc depth) h options (insert a seen)
                    (map (getOwnH kvs) ?keys) = Some rs" .
        have "normalizeValueH (Suc (Suc depth)) h options seen v
                = normalizeValueH (Suc depth) h options seen v"
          unfolding normalizeValueH.simps(2) [of "Suc depth"] normalizeValueH.simps(2) [of depth]
          by (simp only: HRef HObject hval.case hobj.case False if_False Let_def l l')
        with "2.prems" show ?thesis by simp
      qed
    qed
  qed (use "2.prems" in auto)
next
  case (3 depth h options seen)
  then show ?case by simp
next
  case (4 depth h options seen x xs)
  from "4.prems" obtain r1 s1 where
    x: "normalizeValueH depth h options seen x = Some (r1, s1)"
    by (auto split: option.splits)
  from "4.IH"(1) [OF x]
  have x': "normalizeValueH (Suc depth) h options seen x = Some (r1, s1)" .
  show ?case
  proof (cases r1)
    case (Inl e)
    with x x' "4.prems" show ?thesis by simp
  next
    case (Inr v)
    with x "4.prems" obtain rs' where
      xs: "normalizeListH depth h options s1 xs = Some rs'"
      by (auto split: option.splits)
    from "4.IH"(2) [OF x [unfolded Inr] refl refl xs]
    have xs': "normalizeListH (Suc depth) h options s1 xs = Some rs'" .
    from x x' xs xs' Inr "4.prems" show ?thesis by simp
  qed
qed

lemma more_depth:
  "normalizeValueH depth h options seen v = Some r \<Longrightarrow>
     normalizeValueH (depth + k) h options seen v = Some r"
  by (induction k) (simp_all add: one_more_depth(1) del: normalizeValueH.simps)

lemma seen_object_is_marked:
  "h a = HObject kvs \<Longrightarrow> a \<in> seen \<Longrightarrow>
     normalizeValueH (Suc depth) h options seen (HRef a) = Some (Inr (JStr (lit ''[Circular]'')), seen)"
  by simp

text \<open>
  C3 fails on the code. The payload has one address object under both \<^verbatim>\<open>billing\<close> and
  \<^verbatim>\<open>shipping\<close>; there is no cycle. The set \<^verbatim>\<open>seen\<close> still holds the object when the
  second key is reached, so the second occurrence becomes \<^verbatim>\<open>[Circular]\<close>, at every
  sufficient depth of the call stack, while the same payload without sharing is
  normalized in full. An array that contains itself is never looked up in the set, and
  the recursion on it does not return at any depth.
\<close>

theorem shared_object_marked_circular:
  "normalizeValueH (Suc (Suc (Suc depth)))
     ((\<lambda>a. HObject [])
        (0 := HObject [(lit ''billing'', HRef 1), (lit ''shipping'', HRef 1)],
         1 := HObject [(lit ''city'', HStr (lit ''x''))]))
     (noOptions\<lparr>sortKeys := Some True\<rparr>) {} (HRef 0)
   = Some (Inr (JObj [(lit ''billing'', JObj [(lit ''city'', JStr (lit ''x''))]),
                      (lit ''shipping'', JStr (lit ''[Circular]''))]),
           {0, 1})
   \<and> normalizeValue (noOptions\<lparr>sortKeys := Some True\<rparr>)
       (JObj [(lit ''billing'', JObj [(lit ''city'', JStr (lit ''x''))]),
              (lit ''shipping'', JObj [(lit ''city'', JStr (lit ''x''))])])
     = Inr (JObj [(lit ''billing'', JObj [(lit ''city'', JStr (lit ''x''))]),
                  (lit ''shipping'', JObj [(lit ''city'', JStr (lit ''x''))])])
   \<and> normalizeValueH depth ((\<lambda>a. HObject [])(0 := HArray [HRef 0])) options seen (HRef 0)
     = None"
proof -
  let ?opts = "noOptions\<lparr>sortKeys := Some True\<rparr>"
  let ?h = "(\<lambda>a. HObject [])
        (0 := HObject [(lit ''billing'', HRef 1), (lit ''shipping'', HRef 1)],
         1 := HObject [(lit ''city'', HStr (lit ''x''))])"
  have "normalizeValueH 3 ?h ?opts {} (HRef 0)
   = Some (Inr (JObj [(lit ''billing'', JObj [(lit ''city'', JStr (lit ''x''))]),
                      (lit ''shipping'', JStr (lit ''[Circular]''))]),
           {0, 1})"
    by code_simp
  from more_depth [OF this, of depth]
  have graph: "normalizeValueH (Suc (Suc (Suc depth))) ?h ?opts {} (HRef 0)
   = Some (Inr (JObj [(lit ''billing'', JObj [(lit ''city'', JStr (lit ''x''))]),
                      (lit ''shipping'', JStr (lit ''[Circular]''))]),
           {0, 1})"
    by (simp add: numeral_3_eq_3 del: normalizeValueH.simps)
  have tree: "normalizeValue ?opts
       (JObj [(lit ''billing'', JObj [(lit ''city'', JStr (lit ''x''))]),
              (lit ''shipping'', JObj [(lit ''city'', JStr (lit ''x''))])])
     = Inr (JObj [(lit ''billing'', JObj [(lit ''city'', JStr (lit ''x''))]),
                  (lit ''shipping'', JObj [(lit ''city'', JStr (lit ''x''))])])"
    by code_simp
  from graph tree cyclic_array_never_returns show ?thesis
    by (intro conjI)
qed

section \<open>Parsing a canonical text back\<close>

lemma hexValue_hexDigit_all: "list_all (\<lambda>d. hexValue (hexDigit d) = Some d) [0..<16]"
  by code_simp

lemma hexValue_hexDigit: "d < 16 \<Longrightarrow> hexValue (hexDigit d) = Some d"
  using hexValue_hexDigit_all by (simp add: list_all_iff)

lemma unat_hex_split:
  "n div 4096 * 4096 + n div 256 mod 16 * 256 + n div 16 mod 16 * 16 + n mod 16 = (n::nat)"
proof -
  have a: "n div 16 div 16 = n div 256" "n div 256 div 16 = n div 4096"
    by (simp_all add: div_mult2_eq [symmetric])
  have "n = n div 16 * 16 + n mod 16" by simp
  also have "n div 16 = n div 16 div 16 * 16 + n div 16 mod 16" by simp
  also have "n div 16 div 16 = n div 16 div 16 div 16 * 16 + n div 16 div 16 mod 16" by simp
  finally show ?thesis unfolding a by simp
qed

lemma unat_div_4096: "unat (c :: code_unit) div 4096 < 16"
proof -
  have "unat c < 65536" using unsigned_less [of c] by simp
  then show ?thesis by simp
qed

lemma parse_unicodeEscape:
  "parseStringBody (unicodeEscape c @ r) = consUnit c (parseStringBody r)"
proof -
  have "of_nat (unat c div 4096 * 4096 + unat c div 256 mod 16 * 256 + unat c div 16 mod 16 * 16
           + unat c mod 16) = c"
    unfolding unat_hex_split by simp
  then show ?thesis
    by (simp add: unicodeEscape_def hexValue_hexDigit unat_div_4096)
qed

lemma parse_raw:
  "\<not> c < 0x20 \<Longrightarrow> c \<noteq> 0x22 \<Longrightarrow> c \<noteq> 0x5C \<Longrightarrow>
     parseStringBody (c # r) = consUnit c (parseStringBody r)"
  by simp

lemma parse_short_escape:
  "unescape e = Some u \<Longrightarrow> e \<noteq> 0x75 \<Longrightarrow>
     parseStringBody (0x5C # e # r) = consUnit u (parseStringBody r)"
  by simp

lemma parse_quoteUnit:
  "parseStringBody (quoteUnit c @ r) = consUnit c (parseStringBody r)"
proof -
  consider "c = 0x08" | "c = 0x09" | "c = 0x0A" | "c = 0x0C" | "c = 0x0D" | "c = 0x22"
    | "c = 0x5C"
    | "c \<notin> {0x08, 0x09, 0x0A, 0x0C, 0x0D, 0x22, 0x5C}"
      "c < 0x20 \<or> isHighSurrogate c \<or> isLowSurrogate c"
    | "c \<notin> {0x08, 0x09, 0x0A, 0x0C, 0x0D, 0x22, 0x5C}"
      "\<not> (c < 0x20 \<or> isHighSurrogate c \<or> isLowSurrogate c)"
    by blast
  then show ?thesis
  proof cases
    case 8
    then have "quoteUnit c = unicodeEscape c"
      by (simp add: quoteUnit_def)
    then show ?thesis
      by (simp only: parse_unicodeEscape)
  next
    case 9
    then have q: "quoteUnit c = [c]"
      by (simp add: quoteUnit_def)
    from 9 have "parseStringBody (c # r) = consUnit c (parseStringBody r)"
      by (intro parse_raw) auto
    with q show ?thesis by simp
  qed (simp_all add: quoteUnit_def unescape_def)
qed

lemma surrogate_raw:
  assumes "isHighSurrogate c \<or> isLowSurrogate c"
  shows "\<not> c < 0x20" "c \<noteq> 0x22" "c \<noteq> 0x5C"
proof -
  from assms have "0xD800 \<le> unat c"
    by (auto simp: isHighSurrogate_def isLowSurrogate_def word_le_nat_alt)
  then show "\<not> c < 0x20" "c \<noteq> 0x22" "c \<noteq> 0x5C"
    by (auto simp: word_less_nat_alt)
qed

lemma parse_quoteBody:
  "parseStringBody (quoteBody s @ 0x22 # rest) = Some (s, rest)"
proof (induction s rule: quoteBody.induct)
  case 1
  show ?case by simp
next
  case (2 c)
  have "parseStringBody (quoteUnit c @ 0x22 # rest) = consUnit c (parseStringBody (0x22 # rest))"
    by (rule parse_quoteUnit)
  then show ?case
    by (simp add: consUnit_def)
next
  case (3 c d cs)
  show ?case
  proof (cases "isHighSurrogate c \<and> isLowSurrogate d")
    case True
    have "parseStringBody (c # d # quoteBody cs @ 0x22 # rest)
            = consUnit c (parseStringBody (d # quoteBody cs @ 0x22 # rest))"
      using True by (intro parse_raw surrogate_raw) simp_all
    also have "parseStringBody (d # quoteBody cs @ 0x22 # rest)
            = consUnit d (parseStringBody (quoteBody cs @ 0x22 # rest))"
      using True by (intro parse_raw surrogate_raw) simp_all
    finally have "parseStringBody (c # d # quoteBody cs @ 0x22 # rest) = Some (c # d # cs, rest)"
      using "3.IH"(1) [OF True] by (simp add: consUnit_def)
    moreover have "quoteBody (c # d # cs) = c # d # quoteBody cs"
      using True by simp
    ultimately show ?thesis by simp
  next
    case False
    then have q: "quoteBody (c # d # cs) = quoteUnit c @ quoteBody (d # cs)"
      by auto
    have "parseStringBody (quoteUnit c @ (quoteBody (d # cs) @ 0x22 # rest))
            = consUnit c (parseStringBody (quoteBody (d # cs) @ 0x22 # rest))"
      by (rule parse_quoteUnit)
    with "3.IH"(2) [OF False] q show ?thesis
      by (simp add: consUnit_def)
  qed
qed

lemma canonicalizeString_shape:
  "canonicalizeString s = 0x22 # quoteBody s @ [0x22]"
  by (simp add: canonicalizeString_def JSON_stringify_string_def)

lemma digitUnit_all:
  "list_all (\<lambda>d. isDigit (digitUnit d) \<and> unat (digitUnit d) - 48 = d
        \<and> (d \<noteq> 0 \<longrightarrow> digitUnit d \<noteq> 0x30)) [0..<10]"
  by code_simp

lemma digitUnit_props:
  assumes "d < 10"
  shows "isDigit (digitUnit d)" "unat (digitUnit d) - 48 = d" "d \<noteq> 0 \<Longrightarrow> digitUnit d \<noteq> 0x30"
  using digitUnit_all assms by (simp_all add: list_all_iff)

lemma digitUnit_0: "digitUnit 0 = 0x30"
  by (simp add: digitUnit_def)

lemma decDigits_isDigit: "list_all isDigit (decDigits n)"
  by (induction n rule: decDigits.induct)
     (subst decDigits.simps, simp add: digitUnit_props)

lemma decDigits_nonempty: "decDigits n \<noteq> []"
  by (subst decDigits.simps) simp

lemma digitsValue_append:
  "digitsValue acc (xs @ ys) = digitsValue (digitsValue acc xs) ys"
  by (induction xs arbitrary: acc) simp_all

lemma digitsValue_decDigits: "digitsValue 0 (decDigits n) = n"
proof (induction n rule: decDigits.induct)
  case (1 n)
  show ?case
  proof (cases "n < 10")
    case True
    then show ?thesis
      by (subst decDigits.simps) (simp add: digitUnit_props)
  next
    case False
    with 1 show ?thesis
      by (subst decDigits.simps) (simp add: digitsValue_append digitUnit_props)
  qed
qed

lemma hd_decDigits: "0 < n \<Longrightarrow> hd (decDigits n) \<noteq> 0x30"
proof (induction n rule: decDigits.induct)
  case (1 n)
  show ?case
  proof (cases "n < 10")
    case True
    with "1.prems" show ?thesis
      by (subst decDigits.simps) (simp add: digitUnit_props)
  next
    case False
    then have "0 < n div 10" by simp
    with 1 False show ?thesis
      by (subst decDigits.simps) (simp add: decDigits_nonempty)
  qed
qed

lemma digitsValue_zeros: "digitsValue acc (replicate z 0x30) = acc * 10 ^ z"
  by (induction z arbitrary: acc) simp_all

lemma take_drop_digits:
  assumes "list_all isDigit ds" and "rest = [] \<or> \<not> isDigit (hd rest)"
  shows "takeWhile isDigit (ds @ rest) = ds" "dropWhile isDigit (ds @ rest) = rest"
proof -
  from assms(2) have r: "takeWhile isDigit rest = []" "dropWhile isDigit rest = rest"
    by (cases rest; simp)+
  from assms(1) have a: "\<forall>x \<in> set ds. isDigit x"
    by (simp add: list_all_iff)
  from a r show "takeWhile isDigit (ds @ rest) = ds"
    by (simp add: takeWhile_append2)
  from a r show "dropWhile isDigit (ds @ rest) = rest"
    by (simp add: dropWhile_append2)
qed

lemma strip10_zero: "strip10 0 e = (0, 0)"
  by (subst strip10.simps) simp

lemma strip10_nz: "m \<noteq> 0 \<Longrightarrow> m mod 10 \<noteq> 0 \<Longrightarrow> strip10 m e = (m, e)"
  by (subst strip10.simps) simp

lemma strip10_mult: "m \<noteq> 0 \<Longrightarrow> strip10 (m * 10 ^ z) e = strip10 m (e + int z)"
proof (induction z arbitrary: e)
  case 0
  then show ?case by simp
next
  case (Suc z)
  have "strip10 (m * 10 ^ Suc z) e = strip10 (m * 10 ^ z) (e + 1)"
    using Suc.prems by (subst strip10.simps) simp
  with Suc show ?case by (simp add: add.assoc)
qed

lemma strip10_result:
  "strip10 m e = (s, e') \<Longrightarrow> m \<noteq> 0 \<Longrightarrow> s \<noteq> 0 \<and> s mod 10 \<noteq> 0 \<and> (s < 0 \<longleftrightarrow> m < 0)"
proof (induction m e rule: strip10.induct)
  case (1 m e)
  show ?case
  proof (cases "m mod 10 = 0")
    case True
    with "1.prems" have "strip10 (m div 10) (e + 1) = (s, e')"
      by (subst (asm) strip10.simps) simp
    moreover from True "1.prems" have "m div 10 \<noteq> 0" by auto
    ultimately have "s \<noteq> 0 \<and> s mod 10 \<noteq> 0 \<and> (s < 0 \<longleftrightarrow> m div 10 < 0)"
      using "1.IH" "1.prems" True by simp
    moreover have "m div 10 < 0 \<longleftrightarrow> m < 0" by presburger
    ultimately show ?thesis by simp
  next
    case False
    with "1.prems" have "(s, e') = (m, e)"
      by (subst (asm) strip10.simps) simp
    with False "1.prems" show ?thesis by simp
  qed
qed

lemma isDigit_facts:
  "\<not> isDigit 0x2E" "\<not> isDigit 0x65" "\<not> isDigit 0x45" "\<not> isDigit 0x2D" "\<not> isDigit 0x2B"
  "isDigit 0x30"
  by (simp_all add: isDigit_def)

lemma isDigit_neq:
  "isDigit c \<Longrightarrow> c \<noteq> 0x2D \<and> c \<noteq> 0x2E \<and> c \<noteq> 0x65 \<and> c \<noteq> 0x45 \<and> c \<noteq> 0x2B"
  using isDigit_facts by auto

lemma parseExponent_none:
  "numberRest rest \<Longrightarrow> parseExponent rest = Some (0, rest)"
  by (auto simp: parseExponent_def numberRest_def)

lemma parseExponent_some:
  assumes "list_all isDigit eds" "eds \<noteq> []" "sg = 0x2D \<or> sg = 0x2B" "numberRest rest"
  shows "parseExponent (0x65 # sg # eds @ rest)
           = Some ((if sg = 0x2D then -1 else 1) * int (digitsValue 0 eds), rest)"
proof -
  from assms(4) have r: "rest = [] \<or> \<not> isDigit (hd rest)"
    by (auto simp: numberRest_def)
  note td = take_drop_digits [OF assms(1) r]
  from assms(2,3) td show ?thesis
    by (auto simp: parseExponent_def Let_def)
qed

lemma parseFraction_none:
  "rest = [] \<or> hd rest \<noteq> 0x2E \<Longrightarrow> parseFraction rest = Some ([], rest)"
  by (auto simp: parseFraction_def)

lemma parseFraction_some:
  assumes "list_all isDigit fds" "fds \<noteq> []" "rest = [] \<or> \<not> isDigit (hd rest)"
  shows "parseFraction (0x2E # fds @ rest) = Some (fds, rest)"
  using take_drop_digits [OF assms(1,3)] assms(2)
  by (simp add: parseFraction_def)

text \<open>A literal: optional minus, integer digits, then what \<open>tail\<close> holds.\<close>

lemma parseNumber_int_part:
  assumes ids: "list_all isDigit ids" "ids \<noteq> []" "hd ids \<noteq> 0x30 \<or> length ids = 1"
    and tail: "tail = [] \<or> \<not> isDigit (hd tail)"
    and frac: "parseFraction tail = Some (fds, s3)"
    and ex: "parseExponent s3 = Some (ex, s4)"
  shows "parseNumber ((if neg then [0x2D] else []) @ ids @ tail)
           = Some (normNum ((if neg then -1 else 1) * int (digitsValue 0 (ids @ fds)))
                     (ex - int (length fds)), s4)"
proof -
  note td = take_drop_digits [OF ids(1) tail]
  from ids have h: "hd ids \<noteq> 0x2D"
    by (cases ids) (auto dest: isDigit_neq)
  have lead: "\<not> (hd ids = 0x30 \<and> length ids > 1)"
    using ids(3) by auto
  show ?thesis
  proof (cases neg)
    case True
    then show ?thesis
      using td ids(2) lead frac ex by (simp add: parseNumber_def Let_def)
  next
    case False
    have "ids @ tail \<noteq> []" "hd (ids @ tail) \<noteq> 0x2D"
      using ids(2) h by simp_all
    with False show ?thesis
      using td ids(2) lead frac ex by (simp add: parseNumber_def Let_def)
  qed
qed

lemma normNum_stripped:
  assumes "0 < s" "s mod 10 \<noteq> 0"
  shows "normNum ((if neg then -1 else 1) * int s) e = Fin ((if neg then -1 else 1) * int s) e"
proof -
  from assms have "int s mod 10 \<noteq> 0" "(- int s) mod 10 \<noteq> 0"
    by presburger+
  with assms show ?thesis
    by (simp add: normNum_def strip10_nz)
qed

lemma normNum_mult:
  assumes "m \<noteq> 0" "m mod 10 \<noteq> 0"
  shows "normNum (m * 10 ^ z) 0 = Fin m (int z)"
proof -
  have "strip10 (m * 10 ^ z) 0 = strip10 m (0 + int z)"
    using strip10_mult [OF assms(1), of z 0] .
  also have "\<dots> = (m, int z)"
    using strip10_nz [OF assms] by simp
  finally show ?thesis
    by (simp add: normNum_def)
qed

lemma normNum_zeros:
  assumes "0 < s" "s mod 10 \<noteq> 0"
  shows "normNum ((if neg then -1 else 1) * int (s * 10 ^ z)) 0
           = Fin ((if neg then -1 else 1) * int s) (int z)"
proof -
  from assms have md: "int s mod 10 \<noteq> 0" "(- int s) mod 10 \<noteq> 0"
    by presburger+
  show ?thesis
  proof (cases neg)
    case True
    have "normNum ((- int s) * 10 ^ z) 0 = Fin (- int s) (int z)"
      using assms md by (intro normNum_mult) simp_all
    with True show ?thesis by simp
  next
    case False
    have "normNum (int s * 10 ^ z) 0 = Fin (int s) (int z)"
      using assms md by (intro normNum_mult) simp_all
    with False show ?thesis by simp
  qed
qed

lemma isDigit_zeros: "list_all isDigit (replicate z 0x30)"
  by (simp add: list_all_iff isDigit_facts)

lemma numberRest_digit: "numberRest rest \<Longrightarrow> rest = [] \<or> \<not> isDigit (hd rest)"
  by (auto simp: numberRest_def)

lemma numberRest_dot: "numberRest rest \<Longrightarrow> rest = [] \<or> hd rest \<noteq> 0x2E"
  by (auto simp: numberRest_def)

lemma render_integer:
  assumes s: "0 < s" "s mod 10 \<noteq> 0" and rest: "numberRest rest"
  shows "parseNumber ((if neg then [0x2D] else []) @ (decDigits s @ replicate z 0x30) @ rest)
           = Some (Fin ((if neg then -1 else 1) * int s) (int z), rest)"
proof -
  let ?ids = "decDigits s @ replicate z 0x30"
  have ids: "list_all isDigit ?ids" "?ids \<noteq> []" "hd ?ids \<noteq> 0x30 \<or> length ?ids = 1"
    using decDigits_isDigit [of s] decDigits_nonempty [of s] hd_decDigits [OF s(1)]
      isDigit_zeros [of z]
    by simp_all
  have v: "digitsValue 0 (?ids @ []) = s * 10 ^ z"
    by (simp add: digitsValue_append digitsValue_decDigits digitsValue_zeros)
  from parseNumber_int_part [OF ids numberRest_digit [OF rest]
      parseFraction_none [OF numberRest_dot [OF rest]] parseExponent_none [OF rest], of neg]
  show ?thesis
    unfolding v using normNum_zeros [OF s, of neg z] by simp
qed

lemma render_point:
  assumes s: "0 < s" "s mod 10 \<noteq> 0" and rest: "numberRest rest"
    and n: "0 < n" "n < length (decDigits s)"
  shows "parseNumber ((if neg then [0x2D] else [])
            @ (take n (decDigits s) @ [0x2E] @ drop n (decDigits s)) @ rest)
           = Some (Fin ((if neg then -1 else 1) * int s) (int n - int (length (decDigits s))),
                   rest)"
proof -
  let ?ds = "decDigits s"
  let ?ids = "take n ?ds" and ?fds = "drop n ?ds"
  have all: "\<forall>x \<in> set ?ds. isDigit x"
    using decDigits_isDigit [of s] by (simp add: list_all_iff)
  have ids: "list_all isDigit ?ids" "?ids \<noteq> []" "hd ?ids \<noteq> 0x30 \<or> length ?ids = 1"
    using all n hd_decDigits [OF s(1)] decDigits_nonempty [of s]
    by (auto simp: list_all_iff dest: in_set_takeD)
  have fds: "list_all isDigit ?fds" "?fds \<noteq> []"
    using all n by (auto simp: list_all_iff dest: in_set_dropD)
  let ?tail = "0x2E # ?fds @ rest"
  have tail: "?tail = [] \<or> \<not> isDigit (hd ?tail)"
    by (simp add: isDigit_facts)
  have frac: "parseFraction ?tail = Some (?fds, rest)"
    using parseFraction_some [OF fds numberRest_digit [OF rest]] .
  have len: "int (length ?fds) = int (length ?ds) - int n"
    using n by simp
  from parseNumber_int_part [OF ids tail frac parseExponent_none [OF rest], of neg]
  show ?thesis
    using normNum_stripped [OF s, of neg] len
    by (simp add: digitsValue_decDigits)
qed

lemma render_leading_zeros:
  assumes s: "0 < s" "s mod 10 \<noteq> 0" and rest: "numberRest rest"
  shows "parseNumber ((if neg then [0x2D] else [])
            @ ([0x30, 0x2E] @ replicate z 0x30 @ decDigits s) @ rest)
           = Some (Fin ((if neg then -1 else 1) * int s)
                     (- int z - int (length (decDigits s))), rest)"
proof -
  let ?ds = "decDigits s"
  let ?fds = "replicate z 0x30 @ ?ds"
  have ids: "list_all isDigit [0x30]" "[0x30] \<noteq> []" "hd [0x30] \<noteq> 0x30 \<or> length [0x30::code_unit] = 1"
    by (simp_all add: isDigit_facts)
  have fds: "list_all isDigit ?fds" "?fds \<noteq> []"
    using decDigits_isDigit [of s] decDigits_nonempty [of s] isDigit_zeros [of z] by simp_all
  let ?tail = "0x2E # ?fds @ rest"
  have tail: "?tail = [] \<or> \<not> isDigit (hd ?tail)"
    by (simp add: isDigit_facts)
  have frac: "parseFraction ?tail = Some (?fds, rest)"
    using parseFraction_some [OF fds numberRest_digit [OF rest]] .
  have v: "digitsValue 0 ([0x30] @ ?fds) = s"
    by (simp add: digitsValue_append digitsValue_decDigits digitsValue_zeros)
  from parseNumber_int_part [OF ids tail frac parseExponent_none [OF rest], of neg]
  show ?thesis
    unfolding v using normNum_stripped [OF s, of neg] by simp
qed

lemma exponent_value:
  "(if (if x < 0 then 0x2D else 0x2B) = (0x2D :: code_unit) then -1 else 1)
     * int (digitsValue 0 (decDigits (nat \<bar>x\<bar>))) = x"
  by (simp add: digitsValue_decDigits)

lemma render_exponent:
  assumes s: "0 < s" "s mod 10 \<noteq> 0" and rest: "numberRest rest"
  shows "parseNumber ((if neg then [0x2D] else [])
            @ ((if int (length (decDigits s)) = 1 then decDigits s
                else [hd (decDigits s), 0x2E] @ tl (decDigits s))
               @ [0x65, if x < 0 then 0x2D else 0x2B] @ decDigits (nat \<bar>x\<bar>)) @ rest)
           = Some (Fin ((if neg then -1 else 1) * int s)
                     (x - (int (length (decDigits s)) - 1)), rest)"
proof -
  let ?ds = "decDigits s"
  let ?sg = "if x < 0 then 0x2D else 0x2B :: code_unit"
  let ?eds = "decDigits (nat \<bar>x\<bar>)"
  let ?epart = "0x65 # ?sg # ?eds @ rest"
  have all: "\<forall>c \<in> set ?ds. isDigit c"
    using decDigits_isDigit [of s] by (simp add: list_all_iff)
  have ex: "parseExponent ?epart = Some (x, rest)"
    using parseExponent_some [OF decDigits_isDigit decDigits_nonempty _ rest, of ?sg "nat \<bar>x\<bar>"]
      exponent_value [of x]
    by simp
  show ?thesis
  proof (cases "int (length ?ds) = 1")
    case True
    have ids: "list_all isDigit ?ds" "?ds \<noteq> []" "hd ?ds \<noteq> 0x30 \<or> length ?ds = 1"
      using decDigits_isDigit [of s] decDigits_nonempty [of s] True by simp_all
    have tail: "?epart = [] \<or> \<not> isDigit (hd ?epart)"
      by (simp add: isDigit_facts)
    have frac: "parseFraction ?epart = Some ([], ?epart)"
      by (rule parseFraction_none) simp
    from parseNumber_int_part [OF ids tail frac ex, of neg]
    show ?thesis
      using True normNum_stripped [OF s, of neg] by (simp add: digitsValue_decDigits)
  next
    case False
    with decDigits_nonempty [of s] have long: "1 < length ?ds"
      by (cases ?ds) auto
    then obtain d rest_ds where ds: "?ds = d # rest_ds" "rest_ds \<noteq> []"
      by (cases ?ds) auto
    have ids: "list_all isDigit [d]" "[d] \<noteq> []" "hd [d] \<noteq> 0x30 \<or> length [d] = 1"
      using all ds by simp_all
    have fds: "list_all isDigit rest_ds" "rest_ds \<noteq> []"
      using all ds by (simp_all add: list_all_iff)
    let ?tail = "0x2E # rest_ds @ ?epart"
    have tail: "?tail = [] \<or> \<not> isDigit (hd ?tail)"
      by (simp add: isDigit_facts)
    have frac: "parseFraction ?tail = Some (rest_ds, ?epart)"
      by (rule parseFraction_some [OF fds]) (simp add: isDigit_facts)
    have v: "digitsValue 0 ([d] @ rest_ds) = s"
      using digitsValue_decDigits [of s] ds by simp
    have len: "int (length rest_ds) = int (length ?ds) - 1"
      using ds by simp
    from parseNumber_int_part [OF ids tail frac ex, of neg]
    have "parseNumber ((if neg then [0x2D] else []) @ [d] @ ?tail)
            = Some (Fin ((if neg then -1 else 1) * int s) (x - int (length rest_ds)), rest)"
      unfolding v by (simp only: normNum_stripped [OF s])
    moreover have "((if int (length ?ds) = 1 then ?ds else [hd ?ds, 0x2E] @ tl ?ds)
                   @ [0x65, ?sg] @ ?eds) @ rest = [d] @ ?tail"
      using False by (simp add: ds(1))
    ultimately show ?thesis
      by (simp only: len)
  qed
qed

lemma parse_renderDecimal:
  assumes s: "0 < s" "s mod 10 \<noteq> 0" and rest: "numberRest rest"
  shows "parseNumber ((if neg then [0x2D] else []) @ renderDecimal s e @ rest)
           = Some (Fin ((if neg then -1 else 1) * int s) e, rest)"
proof -
  let ?ds = "decDigits s"
  let ?k = "int (length ?ds)"
  let ?n = "e + ?k"
  consider (int) "?k \<le> ?n \<and> ?n \<le> 21"
    | (point) "\<not> (?k \<le> ?n \<and> ?n \<le> 21)" "0 < ?n \<and> ?n \<le> 21"
    | (zeros) "\<not> (?k \<le> ?n \<and> ?n \<le> 21)" "\<not> (0 < ?n \<and> ?n \<le> 21)" "-6 < ?n \<and> ?n \<le> 0"
    | (exp) "\<not> (?k \<le> ?n \<and> ?n \<le> 21)" "\<not> (0 < ?n \<and> ?n \<le> 21)" "\<not> (-6 < ?n \<and> ?n \<le> 0)"
    by blast
  then show ?thesis
  proof cases
    case int
    have "renderDecimal s e = ?ds @ replicate (nat (?n - ?k)) 0x30"
      by (simp only: renderDecimal_def Let_def int if_True simp_thms)
    then have r: "renderDecimal s e = ?ds @ replicate (nat e) 0x30"
      by simp
    from int have "int (nat e) = e" by simp
    with render_integer [OF s rest, of neg "nat e"] r show ?thesis by simp
  next
    case point
    from point have c: "\<not> ?k \<le> ?n" "0 < ?n" "?n \<le> 21"
      by auto
    have r: "renderDecimal s e = take (nat ?n) ?ds @ [0x2E] @ drop (nat ?n) ?ds"
      by (simp only: renderDecimal_def Let_def c if_True if_False simp_thms)
    from point have n: "0 < nat ?n" "nat ?n < length ?ds" by auto
    from point have "int (nat ?n) - ?k = e" by simp
    with render_point [OF s rest n, of neg] r show ?thesis by simp
  next
    case zeros
    from zeros have c: "\<not> 0 < ?n" "-6 < ?n" "?n \<le> 0" "\<not> ?k \<le> ?n"
      using decDigits_nonempty [of s] by (auto simp: not_less)
    have r: "renderDecimal s e = [0x30, 0x2E] @ replicate (nat (- ?n)) 0x30 @ ?ds"
      by (simp only: renderDecimal_def Let_def c if_True if_False simp_thms)
    from zeros have "- int (nat (- ?n)) - ?k = e" by simp
    with render_leading_zeros [OF s rest, of neg "nat (- ?n)"] r show ?thesis by simp
  next
    case exp
    have r: "renderDecimal s e =
        (if ?k = 1 then ?ds else [hd ?ds, 0x2E] @ tl ?ds)
        @ [0x65, if ?n - 1 < 0 then 0x2D else 0x2B] @ decDigits (nat \<bar>?n - 1\<bar>)"
      by (simp only: renderDecimal_def Let_def exp if_False simp_thms)
    have "?n - 1 - (?k - 1) = e" by simp
    with render_exponent [OF s rest, of neg "?n - 1"] r show ?thesis by simp
  qed
qed

lemma valueRest_numberRest: "valueRest rest \<Longrightarrow> numberRest rest"
  by (auto simp: valueRest_def numberRest_def isDigit_def)

lemma valueRest_skipWs: "valueRest rest \<Longrightarrow> skipWs rest = rest"
  by (cases rest) (auto simp: valueRest_def skipWs_def isJsonWs_def)

lemma valueRest_simps [simp]:
  "valueRest []" "valueRest (0x2C # r)" "valueRest (0x5D # r)" "valueRest (0x7D # r)"
  by (simp_all add: valueRest_def)

lemma renderDecimal_cases:
  obtains (int) z where "renderDecimal s e = decDigits s @ replicate z 0x30"
  | (point) n where "0 < n" "renderDecimal s e = take n (decDigits s) @ [0x2E] @ drop n (decDigits s)"
  | (zeros) z where "renderDecimal s e = [0x30, 0x2E] @ replicate z 0x30 @ decDigits s"
  | (exp) t where "renderDecimal s e = decDigits s @ t"
  | (exp') t where "renderDecimal s e = [hd (decDigits s), 0x2E] @ t"
proof -
  let ?ds = "decDigits s"
  let ?k = "int (length ?ds)"
  let ?n = "e + ?k"
  consider (a) "?k \<le> ?n" "?n \<le> 21"
    | (b) "\<not> ?k \<le> ?n" "0 < ?n" "?n \<le> 21"
    | (c) "\<not> ?k \<le> ?n" "\<not> 0 < ?n" "-6 < ?n" "?n \<le> 0"
    | (d) "\<not> (?k \<le> ?n \<and> ?n \<le> 21)" "\<not> (0 < ?n \<and> ?n \<le> 21)" "\<not> (-6 < ?n \<and> ?n \<le> 0)"
      "?k = 1"
    | (d') "\<not> (?k \<le> ?n \<and> ?n \<le> 21)" "\<not> (0 < ?n \<and> ?n \<le> 21)" "\<not> (-6 < ?n \<and> ?n \<le> 0)"
      "?k \<noteq> 1"
    by linarith
  then show ?thesis
  proof cases
    case a
    have "renderDecimal s e = ?ds @ replicate (nat (?n - ?k)) 0x30"
      by (simp only: renderDecimal_def Let_def a if_True simp_thms)
    then show ?thesis by (rule int)
  next
    case b
    have "renderDecimal s e = take (nat ?n) ?ds @ [0x2E] @ drop (nat ?n) ?ds"
      by (simp only: renderDecimal_def Let_def b if_True if_False simp_thms)
    moreover from b have "0 < nat ?n" by simp
    ultimately show ?thesis by (rule point [rotated])
  next
    case c
    have "renderDecimal s e = [0x30, 0x2E] @ replicate (nat (- ?n)) 0x30 @ ?ds"
      by (simp only: renderDecimal_def Let_def c if_True if_False simp_thms)
    then show ?thesis by (rule zeros)
  next
    case d
    have "renderDecimal s e = (if ?k = 1 then ?ds else [hd ?ds, 0x2E] @ tl ?ds)
            @ [0x65, if ?n - 1 < 0 then 0x2D else 0x2B] @ decDigits (nat \<bar>?n - 1\<bar>)"
      by (simp only: renderDecimal_def Let_def d(1-3) if_False simp_thms)
    also have "(if ?k = 1 then ?ds else [hd ?ds, 0x2E] @ tl ?ds) = ?ds"
      using d(4) by simp
    finally show ?thesis by (rule exp)
  next
    case d'
    have "renderDecimal s e = (if ?k = 1 then ?ds else [hd ?ds, 0x2E] @ tl ?ds)
            @ [0x65, if ?n - 1 < 0 then 0x2D else 0x2B] @ decDigits (nat \<bar>?n - 1\<bar>)"
      by (simp only: renderDecimal_def Let_def d'(1-3) if_False simp_thms)
    also have "(if ?k = 1 then ?ds else [hd ?ds, 0x2E] @ tl ?ds) = [hd ?ds, 0x2E] @ tl ?ds"
      using d'(4) by simp
    finally have "renderDecimal s e = [hd ?ds, 0x2E] @ (tl ?ds @ [0x65, if ?n - 1 < 0 then 0x2D else 0x2B]
            @ decDigits (nat \<bar>?n - 1\<bar>))"
      by (simp only: append_assoc)
    then show ?thesis by (rule exp')
  qed
qed

lemma hd_renderDecimal:
  "renderDecimal s e \<noteq> [] \<and> isDigit (hd (renderDecimal s e))"
proof -
  let ?ds = "decDigits s"
  obtain d ds' where ds: "?ds = d # ds'"
    using decDigits_nonempty [of s] by (cases ?ds) auto
  with decDigits_isDigit [of s] have d: "isDigit d"
    by simp
  show ?thesis
  proof (cases rule: renderDecimal_cases [of s e])
    case (int z)
    with ds d show ?thesis by simp
  next
    case (point n)
    then obtain n' where "n = Suc n'" by (cases n) auto
    with point ds d show ?thesis by simp
  next
    case (zeros z)
    then show ?thesis by (simp add: isDigit_facts)
  next
    case (exp t)
    with ds d show ?thesis by simp
  next
    case (exp' t)
    with ds d show ?thesis by simp
  qed
qed

lemma parse_Number_toString:
  assumes "numberRest rest"
  shows "\<exists>x'. parseNumber (Number_toString (Fin m e) @ rest) = Some (x', rest)
           \<and> Number_toString x' = Number_toString (Fin m e)
           \<and> isFinite x'"
proof (cases "m = 0")
  case True
  have ids: "list_all isDigit [0x30]" "[0x30] \<noteq> []" "hd [0x30] \<noteq> 0x30 \<or> length [0x30::code_unit] = 1"
    by (simp_all add: isDigit_facts)
  from parseNumber_int_part [OF ids numberRest_digit [OF assms]
      parseFraction_none [OF numberRest_dot [OF assms]] parseExponent_none [OF assms], of False]
  have "parseNumber ([0x30] @ rest) = Some (Fin 0 0, rest)"
    by (simp add: normNum_def strip10_zero)
  moreover have "Number_toString (Fin 0 e) = [0x30]" "Number_toString (Fin 0 0) = [0x30]"
    by (simp_all add: Number_toString_def strip10_zero lit_def)
  ultimately show ?thesis
    using True by (auto simp: isFinite_def)
next
  case False
  obtain s0 e' where st: "strip10 m e = (s0, e')"
    by (cases "strip10 m e")
  from strip10_result [OF st False] have s0: "s0 \<noteq> 0" "s0 mod 10 \<noteq> 0"
    by simp_all
  let ?s = "nat \<bar>s0\<bar>"
  from s0 have s1: "0 < ?s"
    by simp
  from s0 have "0 < \<bar>s0\<bar> mod 10"
    by presburger
  moreover have "?s mod 10 = nat (\<bar>s0\<bar> mod 10)"
    by (simp add: nat_mod_distrib)
  ultimately have s2: "?s mod 10 \<noteq> 0"
    by simp
  note s = s1 s2
  have sg: "(if s0 < 0 then -1 else 1) * int ?s = s0"
    by simp
  have str: "Number_toString (Fin m e) = (if s0 < 0 then [0x2D] else []) @ renderDecimal ?s e'"
    using st s0 by (simp add: Number_toString_def)
  have str': "Number_toString (Fin s0 e') = (if s0 < 0 then [0x2D] else []) @ renderDecimal ?s e'"
    using strip10_nz [OF s0, of e'] s0 by (simp add: Number_toString_def)
  from parse_renderDecimal [OF s assms, of "s0 < 0" e']
  have "parseNumber (Number_toString (Fin m e) @ rest) = Some (Fin s0 e', rest)"
    unfolding str sg by simp
  with str str' show ?thesis
    by (auto simp: isFinite_def)
qed

lemma hd_Number_toString:
  "Number_toString (Fin m e) \<noteq> []
   \<and> (hd (Number_toString (Fin m e)) = 0x2D \<or> isDigit (hd (Number_toString (Fin m e))))"
proof (cases "m = 0")
  case True
  then show ?thesis
    by (simp add: Number_toString_def strip10_zero lit_def isDigit_facts)
next
  case False
  obtain s0 e' where st: "strip10 m e = (s0, e')"
    by (cases "strip10 m e")
  from strip10_result [OF st False] have s0: "s0 \<noteq> 0"
    by simp
  from hd_renderDecimal [of "nat \<bar>s0\<bar>" e'] st s0 show ?thesis
    by (cases "s0 < 0") (simp_all add: Number_toString_def)
qed

lemma map_of_defineAll:
  "map_of (defineAll obj kvs) k =
     (case map_of (rev kvs) k of Some v \<Rightarrow> Some v | None \<Rightarrow> map_of obj k)"
  by (induction obj kvs rule: defineAll.induct)
     (auto simp: map_of_defineProperty split: option.splits)

lemma distinct_defineAll:
  "distinct (map fst obj) \<Longrightarrow> distinct (map fst (defineAll obj kvs))"
  by (induction obj kvs rule: defineAll.induct) (simp_all add: distinct_defineProperty)

lemma keys_defineAll:
  "fst ` set (defineAll obj kvs) = fst ` set obj \<union> fst ` set kvs"
  by (induction obj kvs rule: defineAll.induct) (auto simp: keys_defineProperty)

lemma valueStart_not:
  "valueStart c \<Longrightarrow> \<not> isJsonWs c \<and> c \<noteq> 0x5D \<and> c \<noteq> 0x7D"
  by (auto simp: valueStart_def isJsonWs_def isDigit_def)

lemma skipWs_start: "valueStart c \<Longrightarrow> skipWs (c # cs) = c # cs"
  by (simp add: skipWs_def valueStart_not)

lemma parse_null: "parseValue (Suc n) (lit ''null'' @ rest) = Some (JNull, rest)"
  by (simp add: lit_def skipWs_def isJsonWs_def)

lemma parse_true: "parseValue (Suc n) (lit ''true'' @ rest) = Some (JBool True, rest)"
  by (simp add: lit_def skipWs_def isJsonWs_def)

lemma parse_false: "parseValue (Suc n) (lit ''false'' @ rest) = Some (JBool False, rest)"
  by (simp add: lit_def skipWs_def isJsonWs_def)

lemma parse_empty_array: "parseValue (Suc n) (lit ''[]'' @ rest) = Some (JArr [], rest)"
  by (simp add: lit_def skipWs_def isJsonWs_def)

lemma parse_empty_object: "parseValue (Suc n) (lit ''{}'' @ rest) = Some (JObj [], rest)"
  by (simp add: lit_def skipWs_def isJsonWs_def)

lemma parse_string_value:
  "parseValue (Suc n) (canonicalizeString s @ rest) = Some (JStr s, rest)"
  using parse_quoteBody [of s rest]
  by (simp add: canonicalizeString_shape skipWs_def isJsonWs_def)

lemma number_dispatch:
  assumes "c = 0x2D \<or> isDigit c"
  shows "parseValue (Suc n) (c # cs) =
           (case parseNumber (c # cs) of None \<Rightarrow> None | Some (x, r) \<Rightarrow> Some (JNum x, r))"
proof -
  from assms have c: "\<not> isJsonWs c" "c \<noteq> 0x22" "c \<noteq> 0x5B" "c \<noteq> 0x7B" "c \<noteq> 0x6E" "c \<noteq> 0x74"
    "c \<noteq> 0x66"
    by (auto simp: isJsonWs_def isDigit_def)
  then have "skipWs (c # cs) = c # cs"
    by (simp add: skipWs_def)
  with c assms show ?thesis
    by (simp add: lit_def)
qed

lemma parse_number_value:
  assumes "numberRest rest"
  shows "\<exists>x'. parseValue (Suc n) (Number_toString (Fin m e) @ rest) = Some (JNum x', rest)
           \<and> Number_toString x' = Number_toString (Fin m e) \<and> isFinite x'"
proof -
  from hd_Number_toString [of m e] obtain c cs where
    s: "Number_toString (Fin m e) = c # cs" and c: "c = 0x2D \<or> isDigit c"
    by (cases "Number_toString (Fin m e)") auto
  from parse_Number_toString [OF assms, of m e] obtain x' where
    x: "parseNumber (Number_toString (Fin m e) @ rest) = Some (x', rest)"
      "Number_toString x' = Number_toString (Fin m e)" "isFinite x'"
    by blast
  from number_dispatch [OF c, of n "cs @ rest"] x(1)
  have "parseValue (Suc n) (Number_toString (Fin m e) @ rest) = Some (JNum x', rest)"
    by (simp add: s)
  with x show ?thesis by blast
qed

lemma array_dispatch:
  assumes "valueStart c"
  shows "parseValue (Suc n) (0x5B # c # cs) =
           (case parseElements n (c # cs) of None \<Rightarrow> None | Some (xs, r) \<Rightarrow> Some (JArr xs, r))"
  using valueStart_not [OF assms] skipWs_start [OF assms, of cs]
  by (simp add: skipWs_def isJsonWs_def)

lemma object_dispatch:
  "parseValue (Suc n) (0x7B # 0x22 # cs) =
     (case parseMembers n (0x22 # cs) of
        None \<Rightarrow> None
      | Some (kvs, r) \<Rightarrow> Some (JObj (defineAll [] kvs), r))"
  by (simp add: skipWs_def isJsonWs_def)

lemma elements_step_last:
  assumes "parseValue n s = Some (v, 0x5D # rest)"
  shows "parseElements (Suc n) s = Some ([v], rest)"
  using assms by (simp add: skipWs_def isJsonWs_def)

lemma elements_step_more:
  assumes "parseValue n s = Some (v, 0x2C # s')" "parseElements n s' = Some (vs, rest)"
  shows "parseElements (Suc n) s = Some (v # vs, rest)"
  using assms by (simp add: skipWs_def isJsonWs_def)

lemma members_step_last:
  assumes "parseValue n s = Some (v, 0x7D # rest)"
  shows "parseMembers (Suc n) (canonicalizeString k @ 0x3A # s) = Some ([(k, v)], rest)"
  using assms parse_quoteBody [of k "0x3A # s"]
  by (simp add: canonicalizeString_shape skipWs_def isJsonWs_def)

lemma members_step_more:
  assumes "parseValue n s = Some (v, 0x2C # s')" "parseMembers n s' = Some (kvs, rest)"
  shows "parseMembers (Suc n) (canonicalizeString k @ 0x3A # s) = Some ((k, v) # kvs, rest)"
  using assms parse_quoteBody [of k "0x3A # s"]
  by (simp add: canonicalizeString_shape skipWs_def isJsonWs_def)

lemma valueStart_lit [simp]:
  "valueStart 0x22" "valueStart 0x5B" "valueStart 0x7B" "valueStart 0x6E" "valueStart 0x74"
  "valueStart 0x66" "valueStart 0x2D"
  by (simp_all add: valueStart_def)

lemma hd_canonicalize:
  "\<exists>c cs. canonicalize v = c # cs \<and> valueStart c"
proof (cases v)
  case (JNum x)
  show ?thesis
  proof (cases x)
    case (Fin m e)
    from hd_Number_toString [of m e] obtain c cs where
      "Number_toString (Fin m e) = c # cs" "c = 0x2D \<or> isDigit c"
      by (cases "Number_toString (Fin m e)") auto
    with JNum Fin show ?thesis
      by (auto simp: canonicalizeNumber_def isFinite_def valueStart_def)
  qed (simp_all add: JNum canonicalizeNumber_def isFinite_def lit_def)
qed (simp_all add: lit_def canonicalizeString_shape)

lemma parseElements_join:
  assumes "xs \<noteq> []"
    and "\<And>x n r. x \<in> set xs \<Longrightarrow> valueRest r \<Longrightarrow> 2 * length (canonicalize x) \<le> n \<Longrightarrow>
           \<exists>x'. parseValue n (canonicalize x @ r) = Some (x', r)
                \<and> canonicalize x' = canonicalize x"
    and "2 * length (join [0x2C] (map canonicalize xs)) + 1 \<le> n"
  shows "\<exists>xs'. parseElements n (join [0x2C] (map canonicalize xs) @ 0x5D # rest) = Some (xs', rest)
           \<and> map canonicalize xs' = map canonicalize xs"
  using assms
proof (induction xs arbitrary: n rule: list_nonempty_induct)
  case (single x)
  from single(2) obtain n' where n: "n = Suc n'" "2 * length (canonicalize x) \<le> n'"
    by (cases n) auto
  from single(1) [of x "0x5D # rest" n'] n(2) obtain x' where
    x: "parseValue n' (canonicalize x @ 0x5D # rest) = Some (x', 0x5D # rest)"
      "canonicalize x' = canonicalize x"
    by auto
  from elements_step_last [OF x(1)] x(2) n(1) show ?case
    by auto
next
  case (cons x xs)
  from cons(1) obtain y ys where xs: "xs = y # ys"
    by (cases xs) auto
  let ?J = "join [0x2C] (map canonicalize xs)"
  have j: "join [0x2C] (map canonicalize (x # xs)) = canonicalize x @ 0x2C # ?J"
    by (simp add: xs)
  from cons(4) have "2 * (length (canonicalize x) + 1 + length ?J) + 1 \<le> n"
    unfolding j by simp
  then obtain n' where n: "n = Suc n'" "2 * length (canonicalize x) \<le> n'"
    "2 * length ?J + 1 \<le> n'"
    by (cases n) auto
  from cons(3) [of x "0x2C # ?J @ 0x5D # rest" n'] n(2) obtain x' where
    x: "parseValue n' (canonicalize x @ 0x2C # ?J @ 0x5D # rest)
          = Some (x', 0x2C # ?J @ 0x5D # rest)"
      "canonicalize x' = canonicalize x"
    by auto
  have "\<exists>xs'. parseElements n' (?J @ 0x5D # rest) = Some (xs', rest)
          \<and> map canonicalize xs' = map canonicalize xs"
    by (rule cons(2) [OF _ n(3)]) (rule cons(3), simp_all)
  then obtain xs' where
    xs': "parseElements n' (?J @ 0x5D # rest) = Some (xs', rest)"
      "map canonicalize xs' = map canonicalize xs"
    by blast
  from elements_step_more [OF x(1) xs'(1)]
  have "parseElements n (join [0x2C] (map canonicalize (x # xs)) @ 0x5D # rest)
          = Some (x' # xs', rest)"
    unfolding j n(1) by simp
  moreover from x(2) xs'(2) have "map canonicalize (x' # xs') = map canonicalize (x # xs)"
    by simp
  ultimately show ?case
    by blast
qed

lemma parseMembers_join:
  assumes "ks \<noteq> []"
    and "\<And>k n r. k \<in> set ks \<Longrightarrow> valueRest r \<Longrightarrow> 2 * length (canonicalize (val k)) \<le> n \<Longrightarrow>
           \<exists>v'. parseValue n (canonicalize (val k) @ r) = Some (v', r)
                \<and> canonicalize v' = canonicalize (val k)"
    and "2 * length (join [0x2C]
           (map (\<lambda>k. canonicalizeString k @ [0x3A] @ canonicalize (val k)) ks)) + 1 \<le> n"
  shows "\<exists>vs. parseMembers n
                (join [0x2C] (map (\<lambda>k. canonicalizeString k @ [0x3A] @ canonicalize (val k)) ks)
                 @ 0x7D # rest) = Some (zip ks vs, rest)
           \<and> length vs = length ks
           \<and> map canonicalize vs = map (\<lambda>k. canonicalize (val k)) ks"
  using assms
proof (induction ks arbitrary: n rule: list_nonempty_induct)
  case (single k)
  let ?c = "canonicalize (val k)"
  from single(2) have "2 * (length (canonicalizeString k) + 1 + length ?c) + 1 \<le> n"
    by simp
  then obtain n' where n: "n = Suc n'" "2 * length ?c \<le> n'"
    by (cases n) auto
  from single(1) [of k "0x7D # rest" n'] n(2) obtain v' where
    v: "parseValue n' (?c @ 0x7D # rest) = Some (v', 0x7D # rest)" "canonicalize v' = ?c"
    by auto
  from members_step_last [OF v(1), of k]
  have "parseMembers n
          (join [0x2C] (map (\<lambda>k. canonicalizeString k @ [0x3A] @ canonicalize (val k)) [k])
           @ 0x7D # rest) = Some (zip [k] [v'], rest)"
    unfolding n(1) by simp
  moreover have "length [v'] = length [k]"
    by simp
  moreover from v(2) have "map canonicalize [v'] = map (\<lambda>k. canonicalize (val k)) [k]"
    by simp
  ultimately show ?case
    by blast
next
  case (cons k ks)
  let ?c = "canonicalize (val k)"
  let ?f = "\<lambda>k. canonicalizeString k @ [0x3A] @ canonicalize (val k)"
  let ?J = "join [0x2C] (map ?f ks)"
  from cons(1) obtain y ys where ks: "ks = y # ys"
    by (cases ks) auto
  have j: "join [0x2C] (map ?f (k # ks)) = canonicalizeString k @ 0x3A # ?c @ 0x2C # ?J"
    by (simp add: ks)
  from cons(4) have "2 * (length (canonicalizeString k) + 1 + length ?c + 1 + length ?J) + 1 \<le> n"
    unfolding j by simp
  then obtain n' where n: "n = Suc n'" "2 * length ?c \<le> n'" "2 * length ?J + 1 \<le> n'"
    by (cases n) auto
  from cons(3) [of k "0x2C # ?J @ 0x7D # rest" n'] n(2) obtain v' where
    v: "parseValue n' (?c @ 0x2C # ?J @ 0x7D # rest) = Some (v', 0x2C # ?J @ 0x7D # rest)"
      "canonicalize v' = ?c"
    by auto
  have "\<exists>vs. parseMembers n' (?J @ 0x7D # rest) = Some (zip ks vs, rest)
          \<and> length vs = length ks
          \<and> map canonicalize vs = map (\<lambda>k. canonicalize (val k)) ks"
    by (rule cons(2) [OF _ n(3)]) (rule cons(3), simp_all)
  then obtain vs where
    vs: "parseMembers n' (?J @ 0x7D # rest) = Some (zip ks vs, rest)"
      "length vs = length ks" "map canonicalize vs = map (\<lambda>k. canonicalize (val k)) ks"
    by blast
  from members_step_more [OF v(1) vs(1), of k]
  have "parseMembers n (join [0x2C] (map ?f (k # ks)) @ 0x7D # rest)
          = Some (zip (k # ks) (v' # vs), rest)"
    unfolding j n(1) by simp
  moreover from vs(2) have "length (v' # vs) = length (k # ks)"
    by simp
  moreover from v(2) vs(3)
  have "map canonicalize (v' # vs) = map (\<lambda>k. canonicalize (val k)) (k # ks)"
    by simp
  ultimately show ?case
    by blast
qed

lemma sortedKeys_defineAll:
  assumes "distinct ks" "sorted ks" "length vs = length ks"
  shows "sortedKeys (defineAll [] (zip ks vs)) = ks"
proof -
  let ?obj = "defineAll [] (zip ks vs)"
  from assms(3) have "map fst (zip ks vs) = ks"
    by simp
  then have "fst ` set (zip ks vs) = set ks"
    by (metis set_map)
  then have "fst ` set ?obj = set ks"
    by (simp add: keys_defineAll)
  then have "set (sort (map fst ?obj)) = set ks"
    by simp
  moreover have "distinct (sort (map fst ?obj))"
    by (simp add: distinct_defineAll)
  ultimately show ?thesis
    unfolding sortedKeys_def using assms(1,2)
    by (intro sorted_distinct_set_unique) simp_all
qed

lemma getOwn_defineAll:
  assumes "distinct ks" "length vs = length ks" "i < length ks"
  shows "getOwn (defineAll [] (zip ks vs)) (ks ! i) = vs ! i"
proof -
  from assms(2) have "map fst (zip ks vs) = ks"
    by simp
  with assms(1) have "distinct (map fst (rev (zip ks vs)))"
    by (simp flip: rev_map)
  moreover from assms have "(ks ! i, vs ! i) \<in> set (rev (zip ks vs))"
    by (auto simp: in_set_zip)
  ultimately have "map_of (rev (zip ks vs)) (ks ! i) = Some (vs ! i)"
    by (rule map_of_is_SomeI)
  then show ?thesis
    by (simp add: getOwn_def map_of_defineAll)
qed

lemma canonicalize_defineAll:
  assumes "distinct ks" "sorted ks" "ks \<noteq> []" "length vs = length ks"
    and "map canonicalize vs = map (\<lambda>k. canonicalize (val k)) ks"
  shows "canonicalize (JObj (defineAll [] (zip ks vs))) =
           [0x7B]
           @ join [0x2C] (map (\<lambda>k. canonicalizeString k @ [0x3A] @ canonicalize (val k)) ks)
           @ [0x7D]"
proof -
  let ?obj = "defineAll [] (zip ks vs)"
  have sk: "sortedKeys ?obj = ks"
    by (rule sortedKeys_defineAll) fact+
  from sk assms(3) have ne: "map fst ?obj \<noteq> []"
    by (auto simp: sortedKeys_def)
  have "canonicalize (getOwn ?obj k) = canonicalize (val k)" if "k \<in> set ks" for k
  proof -
    from that obtain i where i: "i < length ks" "k = ks ! i"
      by (auto simp: in_set_conv_nth)
    from assms(5) i(1) assms(4) have "canonicalize (vs ! i) = canonicalize (val (ks ! i))"
      by (metis length_map nth_map)
    with getOwn_defineAll [OF assms(1,4) i(1)] i(2) show ?thesis
      by simp
  qed
  then have "map (\<lambda>k. canonicalizeString k @ [0x3A] @ canonicalize (getOwn ?obj k)) ks
               = map (\<lambda>k. canonicalizeString k @ [0x3A] @ canonicalize (val k)) ks"
    by simp
  moreover from sk ne have "canonicalize (JObj ?obj) =
      [0x7B]
      @ join [0x2C] (map (\<lambda>k. canonicalizeString k @ [0x3A] @ canonicalize (getOwn ?obj k)) ks)
      @ [0x7D]"
    by simp
  ultimately show ?thesis
    by (simp only:)
qed

lemma hd_join_canonicalize:
  assumes "xs \<noteq> []"
  shows "\<exists>c cs. join [0x2C] (map canonicalize xs) = c # cs \<and> valueStart c"
proof -
  from assms obtain x ys where xs: "xs = x # ys"
    by (cases xs) auto
  from hd_canonicalize [of x] obtain c cs where c: "canonicalize x = c # cs" "valueStart c"
    by blast
  then show ?thesis
    by (cases ys) (simp_all add: xs)
qed

lemma hd_join_members:
  assumes "ks \<noteq> []"
  shows "\<exists>cs. join [0x2C] (map (\<lambda>k. canonicalizeString k @ [0x3A] @ f k) ks) = 0x22 # cs"
proof -
  from assms obtain k ys where ks: "ks = k # ys"
    by (cases ks) auto
  then show ?thesis
    by (cases ys) (simp_all add: ks canonicalizeString_shape)
qed

lemma uniqueKeys_getOwn:
  assumes "uniqueKeys (JObj obj)"
  shows "uniqueKeys (getOwn obj k)"
proof (cases "map_of obj k")
  case None
  then show ?thesis by (simp add: getOwn_def)
next
  case (Some v)
  then have "(k, v) \<in> set obj"
    by (rule map_of_SomeD)
  with assms have "uniqueKeys v"
    by (auto simp: list_all_iff)
  with Some show ?thesis
    by (simp add: getOwn_def)
qed

lemma parse_array:
  assumes "xs \<noteq> []"
    and "\<And>x n r. x \<in> set xs \<Longrightarrow> valueRest r \<Longrightarrow> 2 * length (canonicalize x) \<le> n \<Longrightarrow>
           \<exists>x'. parseValue n (canonicalize x @ r) = Some (x', r)
                \<and> canonicalize x' = canonicalize x"
    and "2 * length (canonicalize (JArr xs)) \<le> n"
  shows "\<exists>v'. parseValue n (canonicalize (JArr xs) @ rest) = Some (v', rest)
           \<and> canonicalize v' = canonicalize (JArr xs)"
proof -
  let ?J = "join [0x2C] (map canonicalize xs)"
  from assms(1) have c: "canonicalize (JArr xs) = 0x5B # ?J @ [0x5D]"
    by simp
  from assms(3) have "2 * (length ?J + 2) \<le> n"
    unfolding c by simp
  then obtain n' where n: "n = Suc n'" "2 * length ?J + 1 \<le> n'"
    by (cases n) auto
  from parseElements_join [OF assms(1,2) n(2), of rest] obtain xs' where
    xs': "parseElements n' (?J @ 0x5D # rest) = Some (xs', rest)"
      "map canonicalize xs' = map canonicalize xs"
    by blast
  from hd_join_canonicalize [OF assms(1)] obtain d ds where
    d: "?J = d # ds" "valueStart d"
    by blast
  from array_dispatch [OF d(2), of n' "ds @ 0x5D # rest"] xs'(1)
  have "parseValue n (canonicalize (JArr xs) @ rest) = Some (JArr xs', rest)"
    unfolding c n(1) by (simp add: d(1))
  moreover from xs'(2) assms(1) have "xs' \<noteq> []"
    by auto
  with xs'(2) have "canonicalize (JArr xs') = canonicalize (JArr xs)"
    unfolding c by simp
  ultimately show ?thesis
    by blast
qed

lemma parse_object:
  assumes "map fst obj \<noteq> []"
    and "\<And>k n r. k \<in> set (sortedKeys obj) \<Longrightarrow> valueRest r \<Longrightarrow>
           2 * length (canonicalize (getOwn obj k)) \<le> n \<Longrightarrow>
           \<exists>v'. parseValue n (canonicalize (getOwn obj k) @ r) = Some (v', r)
                \<and> canonicalize v' = canonicalize (getOwn obj k)"
    and "distinct (map fst obj)"
    and "2 * length (canonicalize (JObj obj)) \<le> n"
  shows "\<exists>v'. parseValue n (canonicalize (JObj obj) @ rest) = Some (v', rest)
           \<and> canonicalize v' = canonicalize (JObj obj)"
proof -
  let ?ks = "sortedKeys obj"
  let ?f = "\<lambda>k. canonicalizeString k @ [0x3A] @ canonicalize (getOwn obj k)"
  let ?J = "join [0x2C] (map ?f ?ks)"
  from assms(1) have c: "canonicalize (JObj obj) = 0x7B # ?J @ [0x7D]"
    by simp
  have "length ?ks = length (map fst obj)"
    by (simp add: sortedKeys_def)
  with assms(1) have ne: "?ks \<noteq> []"
    by (metis length_0_conv)
  from assms(3) have ds: "distinct ?ks" "sorted ?ks"
    by (simp_all add: sortedKeys_def)
  from assms(4) have "2 * (length ?J + 2) \<le> n"
    unfolding c by simp
  then obtain n' where n: "n = Suc n'" "2 * length ?J + 1 \<le> n'"
    by (cases n) auto
  from parseMembers_join [of ?ks "getOwn obj", OF ne assms(2) n(2), of rest] obtain vs where
    vs: "parseMembers n' (?J @ 0x7D # rest) = Some (zip ?ks vs, rest)"
      "length vs = length ?ks"
      "map canonicalize vs = map (\<lambda>k. canonicalize (getOwn obj k)) ?ks"
    by blast
  from hd_join_members [OF ne, of "\<lambda>k. canonicalize (getOwn obj k)"] obtain cs where
    cs: "?J = 0x22 # cs"
    by blast
  from vs(1) have "parseMembers n' (0x22 # cs @ 0x7D # rest) = Some (zip ?ks vs, rest)"
    unfolding cs by simp
  with object_dispatch [of n' "cs @ 0x7D # rest"]
  have "parseValue (Suc n') (0x7B # 0x22 # cs @ 0x7D # rest)
          = Some (JObj (defineAll [] (zip ?ks vs)), rest)"
    by (simp del: parseValue.simps)
  moreover have "canonicalize (JObj obj) @ rest = 0x7B # 0x22 # cs @ 0x7D # rest"
    unfolding c cs by simp
  ultimately have "parseValue n (canonicalize (JObj obj) @ rest)
          = Some (JObj (defineAll [] (zip ?ks vs)), rest)"
    unfolding n(1) by (simp only:)
  moreover
  from canonicalize_defineAll [of ?ks vs "getOwn obj", OF ds ne vs(2,3)]
  have "canonicalize (JObj (defineAll [] (zip ?ks vs))) = canonicalize (JObj obj)"
    unfolding c by simp
  ultimately show ?thesis
    by blast
qed

lemma fuel_Suc:
  assumes "2 * length (canonicalize v) \<le> n"
  obtains n' where "n = Suc n'"
proof -
  from hd_canonicalize [of v] have "0 < length (canonicalize v)"
    by auto
  with assms have "0 < n"
    by linarith
  then show thesis
    by (cases n) (auto intro: that)
qed

lemma parse_canonicalize:
  "uniqueKeys v \<Longrightarrow> valueRest rest \<Longrightarrow> 2 * length (canonicalize v) \<le> n \<Longrightarrow>
     \<exists>v'. parseValue n (canonicalize v @ rest) = Some (v', rest)
          \<and> canonicalize v' = canonicalize v"
proof (induction v arbitrary: n rest rule: canonicalize.induct)
  case 1
  from 1(3) obtain n' where "n = Suc n'"
    by (rule fuel_Suc)
  with parse_null [of n' rest] show ?case
    by (intro exI [of _ JNull]) (simp del: parseValue.simps)
next
  case (2 b)
  from 2(3) obtain n' where n: "n = Suc n'"
    by (rule fuel_Suc)
  show ?case
  proof (cases b)
    case True
    with n parse_true [of n' rest] show ?thesis
      by (intro exI [of _ "JBool True"]) (simp del: parseValue.simps)
  next
    case False
    with n parse_false [of n' rest] show ?thesis
      by (intro exI [of _ "JBool False"]) (simp del: parseValue.simps)
  qed
next
  case (3 num)
  show ?case
  proof (cases "isFinite num")
    case False
    then have c: "canonicalize (JNum num) = lit ''null''"
      by (simp add: canonicalizeNumber_def)
    from 3(3) obtain n' where "n = Suc n'"
      by (rule fuel_Suc)
    with parse_null [of n' rest] show ?thesis
      unfolding c by (intro exI [of _ JNull]) (simp del: parseValue.simps)
  next
    case True
    then obtain m e where num: "num = Fin m e"
      by (cases num) (simp_all add: isFinite_def)
    have c: "canonicalize (JNum num) = Number_toString (Fin m e)"
      by (simp add: canonicalizeNumber_def num isFinite_def)
    from 3(3) obtain n' where n: "n = Suc n'"
      by (rule fuel_Suc)
    from parse_number_value [OF valueRest_numberRest [OF 3(2)], of n' m e] obtain x' where
      x: "parseValue (Suc n') (Number_toString (Fin m e) @ rest) = Some (JNum x', rest)"
        "Number_toString x' = Number_toString (Fin m e)" "isFinite x'"
      by blast
    from x(2,3) have "canonicalize (JNum x') = Number_toString (Fin m e)"
      by (simp add: canonicalizeNumber_def)
    with x(1) show ?thesis
      unfolding c n by blast
  qed
next
  case (4 str)
  from 4(3) obtain n' where n: "n = Suc n'"
    by (rule fuel_Suc)
  have "parseValue n (canonicalize (JStr str) @ rest) = Some (JStr str, rest)"
    unfolding n using parse_string_value [of n' str rest]
    by (simp del: parseValue.simps)
  then show ?case
    by blast
next
  case (5 arr)
  show ?case
  proof (cases "arr = []")
    case True
    from 5(4) obtain n' where "n = Suc n'"
      by (rule fuel_Suc)
    with True parse_empty_array [of n' rest] show ?thesis
      by (intro exI [of _ "JArr []"]) (simp del: parseValue.simps)
  next
    case False
    have elems: "\<exists>x'. parseValue n (canonicalize x @ r) = Some (x', r)
            \<and> canonicalize x' = canonicalize x"
      if "x \<in> set arr" "valueRest r" "2 * length (canonicalize x) \<le> n" for x n r
    proof -
      from 5(2) that(1) have "uniqueKeys x"
        by (simp add: list_all_iff)
      with False that(1) show ?thesis
        using that(2,3) by (rule 5(1))
    qed
    show ?thesis
      by (rule parse_array [OF False _ 5(4)]) (rule elems, assumption+)
  qed
next
  case (6 obj)
  show ?case
  proof (cases "map fst obj = []")
    case True
    then have c: "canonicalize (JObj obj) = lit ''{}''"
      by simp
    from 6(4) obtain n' where "n = Suc n'"
      by (rule fuel_Suc)
    with parse_empty_object [of n' rest] show ?thesis
      unfolding c by (intro exI [of _ "JObj []"]) (simp del: parseValue.simps)
  next
    case False
    have members: "\<exists>v'. parseValue n (canonicalize (getOwn obj k) @ r) = Some (v', r)
            \<and> canonicalize v' = canonicalize (getOwn obj k)"
      if "k \<in> set (sortedKeys obj)" "valueRest r" "2 * length (canonicalize (getOwn obj k)) \<le> n"
      for k n r
      using False that(1) uniqueKeys_getOwn [OF 6(2)] that(2,3) by (rule 6(1))
    from 6(2) have d: "distinct (map fst obj)"
      by simp
    show ?thesis
      by (rule parse_object [OF False _ d 6(4)]) (rule members, assumption+)
  qed
next
  case (7 t)
  from 7(3) obtain n' where "n = Suc n'"
    by (rule fuel_Suc)
  with parse_empty_object [of n' rest] show ?case
    by (intro exI [of _ "JObj []"]) (simp del: parseValue.simps)
next
  case 8
  from 8(3) obtain n' where "n = Suc n'"
    by (rule fuel_Suc)
  with parse_null [of n' rest] show ?case
    by (intro exI [of _ JNull]) (simp del: parseValue.simps)
qed

text \<open>
  C6. Idempotence of the canonical form: for every value \<open>v\<close> whose objects list each key
  once (every JSON value, and every JavaScript value of the model: \<^verbatim>\<open>undefined\<close>, non-finite
  numbers and dates included), \<^verbatim>\<open>isJCSCompliant(canonicalize(v))\<close> is true:
  \<^verbatim>\<open>JSON.parse\<close> accepts the canonical text, and canonicalizing the parsed value gives the
  same text, code unit by code unit.
\<close>

theorem canonical_form_is_canonical:
  assumes "uniqueKeys v"
  shows "isJCSCompliant (canonicalize v)"
proof -
  have "valueRest []" "2 * length (canonicalize v) \<le> 2 * length (canonicalize v) + 2"
    by simp_all
  with assms have "\<exists>v'. parseValue (2 * length (canonicalize v) + 2) (canonicalize v @ [])
      = Some (v', []) \<and> canonicalize v' = canonicalize v"
    by (rule parse_canonicalize)
  then obtain v' where
    v': "parseValue (2 * length (canonicalize v) + 2) (canonicalize v) = Some (v', [])"
      "canonicalize v' = canonicalize v"
    by auto
  have "skipWs [] = []"
    by (simp add: skipWs_def)
  with v' show ?thesis
    by (simp add: isJCSCompliant_def JSON_parse_def toJCSString_def del: parseValue.simps)
qed

theorem canonical_form_is_canonical_witness:
  "uniqueKeys (JObj [(lit ''b'', JNum (Fin 25 (-1))), (lit ''a'', JArr [JNull, JStr (lit ''x'')])])
   \<and> isJCSCompliant
       (canonicalize
          (JObj [(lit ''b'', JNum (Fin 25 (-1))), (lit ''a'', JArr [JNull, JStr (lit ''x'')])]))"
proof -
  have u: "uniqueKeys
    (JObj [(lit ''b'', JNum (Fin 25 (-1))), (lit ''a'', JArr [JNull, JStr (lit ''x'')])])"
    by code_simp
  from u canonical_form_is_canonical [OF u] show ?thesis
    by (intro conjI)
qed

end
